theory Spec2Isabelle
  imports Main
begin

section \<open>The tree query engine of chefir\_tree\_escape (tree\_query.py)\<close>

text \<open>
  The class \<open>Tree\<close> of tree\_query.py is embedded as a record, its methods as functions
  that take the record and return either an error or a result. Python integers are
  \<open>int\<close>. Every list access of the source goes through \<open>py_get\<close> and \<open>py_set\<close>,
  which follow Python indexing: an index \<open>i\<close> with \<open>- len \<le> i < 0\<close> counts from the
  end, and any index outside \<open>[- len, len)\<close> raises \<open>IndexError\<close>.
\<close>

subsection \<open>Errors and Python list access\<close>

datatype error = RuntimeError | IndexError | RecursionError

definition py_index :: "'a list \<Rightarrow> int \<Rightarrow> nat option" where
  "py_index xs i =
     (if 0 \<le> i \<and> i < int (length xs) then Some (nat i)
      else if - int (length xs) \<le> i \<and> i < 0 then Some (nat (i + int (length xs)))
      else None)"

definition py_get :: "'a list \<Rightarrow> int \<Rightarrow> error + 'a" where
  "py_get xs i = (case py_index xs i of None \<Rightarrow> Inl IndexError | Some j \<Rightarrow> Inr (xs ! j))"

definition py_set :: "'a list \<Rightarrow> int \<Rightarrow> 'a \<Rightarrow> error + 'a list" where
  "py_set xs i x = (case py_index xs i of None \<Rightarrow> Inl IndexError | Some j \<Rightarrow> Inr (xs[j := x]))"

text \<open>\<open>int.bit_length()\<close>: the number of binary digits of the absolute value.\<close>

fun bit_length_nat :: "nat \<Rightarrow> nat" where
  "bit_length_nat m = (if m = 0 then 0 else Suc (bit_length_nat (m div 2)))"

declare bit_length_nat.simps [simp del]

definition bit_length :: "int \<Rightarrow> nat" where
  "bit_length i = bit_length_nat (nat \<bar>i\<bar>)"

subsection \<open>The class Tree\<close>

text \<open>
  \<open>edges\<close> is a \<open>defaultdict(list)\<close>: a key that was never written reads as the empty
  list, so the field is a total function from node ids to adjacency lists. The field
  \<open>n\<close> of the source is \<open>self_n\<close> here, and \<open>_preprocessed\<close> is \<open>preprocessed\<close>.
\<close>

record Tree =
  self_n :: int
  edges :: "int \<Rightarrow> int list"
  depth :: "int list"
  parent :: "int list"
  LOGN :: nat
  up :: "int list list"
  max_depth_in_subtree :: "int list"
  farthest_node :: "int list"
  preprocessed :: bool

definition Tree_init :: "int \<Rightarrow> Tree" where
  "Tree_init n0 =
     \<lparr> self_n = n0,
       edges = (\<lambda>_. []),
       depth = replicate (nat (n0 + 1)) 0,
       parent = replicate (nat (n0 + 1)) 0,
       LOGN = max 1 (bit_length n0),
       up = replicate (nat (n0 + 1)) (replicate (max 1 (bit_length n0) + 1) 0),
       max_depth_in_subtree = replicate (nat (n0 + 1)) 0,
       farthest_node = replicate (nat (n0 + 1)) 0,
       preprocessed = False \<rparr>"

definition add_edge :: "Tree \<Rightarrow> int \<Rightarrow> int \<Rightarrow> Tree" where
  "add_edge t u v =
     (let e1 = (edges t)(u := edges t u @ [v]);
          e2 = e1(v := e1 v @ [u])
      in t\<lparr>edges := e2\<rparr>)"

text \<open>The construction of main.py: \<open>Tree(n)\<close>, then \<open>add_edge\<close> for every pair of the edge list.\<close>

fun add_edges :: "Tree \<Rightarrow> (int \<times> int) list \<Rightarrow> Tree" where
  "add_edges t [] = t"
| "add_edges t ((u, v) # es) = add_edges (add_edge t u v) es"

definition build :: "int \<Rightarrow> (int \<times> int) list \<Rightarrow> Tree" where
  "build n0 es = add_edges (Tree_init n0) es"

subsection \<open>preprocess\<close>

text \<open>
  \<open>_dfs\<close> and \<open>_compute_farthest\<close> recurse once per tree level. The first argument
  of their models is the number of stack frames still available: Python raises
  \<open>RecursionError\<close> when they are used up. \<open>dfs_children\<close> is the \<open>for\<close> loop of
  \<open>_dfs\<close> over the rest of the adjacency list.
\<close>

fun dfs :: "nat \<Rightarrow> Tree \<Rightarrow> int \<Rightarrow> int \<Rightarrow> error + Tree"
  and dfs_children :: "nat \<Rightarrow> Tree \<Rightarrow> int \<Rightarrow> int \<Rightarrow> int list \<Rightarrow> error + Tree"
where
  "dfs 0 t u p = Inl RecursionError"
| "dfs (Suc f) t u p =
     (case py_set (parent t) u p of
        Inl e \<Rightarrow> Inl e
      | Inr ps \<Rightarrow> dfs_children f (t\<lparr>parent := ps\<rparr>) u p (edges t u))"
| "dfs_children f t u p [] = Inr t"
| "dfs_children f t u p (v # vs) =
     (if v \<noteq> p then
        (case py_get (depth t) u of
           Inl e \<Rightarrow> Inl e
         | Inr du \<Rightarrow>
            (case py_set (depth t) v (du + 1) of
               Inl e \<Rightarrow> Inl e
             | Inr ds \<Rightarrow>
                (case dfs f (t\<lparr>depth := ds\<rparr>) v u of
                   Inl e \<Rightarrow> Inl e
                 | Inr t' \<Rightarrow> dfs_children f t' u p vs)))
      else dfs_children f t u p vs)"

text \<open>\<open>self.up[v][k]\<close> as an expression, and as the target of an assignment.\<close>

definition up_get :: "Tree \<Rightarrow> int \<Rightarrow> int \<Rightarrow> error + int" where
  "up_get t v k = (case py_get (up t) v of Inl e \<Rightarrow> Inl e | Inr row \<Rightarrow> py_get row k)"

definition up_set :: "Tree \<Rightarrow> int \<Rightarrow> int \<Rightarrow> int \<Rightarrow> error + Tree" where
  "up_set t v k x =
     (case py_get (up t) v of
        Inl e \<Rightarrow> Inl e
      | Inr row \<Rightarrow>
         (case py_set row k x of
            Inl e \<Rightarrow> Inl e
          | Inr row' \<Rightarrow>
             (case py_set (up t) v row' of
                Inl e \<Rightarrow> Inl e
              | Inr ups \<Rightarrow> Inr (t\<lparr>up := ups\<rparr>))))"

text \<open>The first loop of \<open>_build_lifting\<close>: \<open>up[v][0] = parent[v]\<close> for \<open>v\<close> in \<open>1..n\<close>.\<close>

fun lift_base :: "Tree \<Rightarrow> int list \<Rightarrow> error + Tree" where
  "lift_base t [] = Inr t"
| "lift_base t (v # vs) =
     (case py_get (parent t) v of
        Inl e \<Rightarrow> Inl e
      | Inr pv \<Rightarrow>
         (case up_set t v 0 pv of
            Inl e \<Rightarrow> Inl e
          | Inr t' \<Rightarrow> lift_base t' vs))"

text \<open>The inner loop of the second: \<open>up[v][k] = up[up[v][k - 1]][k - 1]\<close> for \<open>v\<close> in \<open>1..n\<close>.\<close>

fun lift_row :: "Tree \<Rightarrow> int \<Rightarrow> int list \<Rightarrow> error + Tree" where
  "lift_row t k [] = Inr t"
| "lift_row t k (v # vs) =
     (case up_get t v (k - 1) of
        Inl e \<Rightarrow> Inl e
      | Inr a \<Rightarrow>
         (case up_get t a (k - 1) of
            Inl e \<Rightarrow> Inl e
          | Inr b \<Rightarrow>
             (case up_set t v k b of
                Inl e \<Rightarrow> Inl e
              | Inr t' \<Rightarrow> lift_row t' k vs)))"

fun lift_levels :: "Tree \<Rightarrow> int list \<Rightarrow> error + Tree" where
  "lift_levels t [] = Inr t"
| "lift_levels t (k # ks) =
     (case lift_row t k [1..self_n t] of
        Inl e \<Rightarrow> Inl e
      | Inr t' \<Rightarrow> lift_levels t' ks)"

definition build_lifting :: "Tree \<Rightarrow> error + Tree" where
  "build_lifting t =
     (case lift_base t [1..self_n t] of
        Inl e \<Rightarrow> Inl e
      | Inr t' \<Rightarrow> lift_levels t' [1..int (LOGN t')])"

fun compute_farthest :: "nat \<Rightarrow> Tree \<Rightarrow> int \<Rightarrow> int \<Rightarrow> error + Tree"
  and farthest_children :: "nat \<Rightarrow> Tree \<Rightarrow> int \<Rightarrow> int \<Rightarrow> int list \<Rightarrow> error + Tree"
where
  "compute_farthest 0 t u p = Inl RecursionError"
| "compute_farthest (Suc f) t u p =
     (case py_get (depth t) u of
        Inl e \<Rightarrow> Inl e
      | Inr du \<Rightarrow>
         (case py_set (max_depth_in_subtree t) u du of
            Inl e \<Rightarrow> Inl e
          | Inr ms \<Rightarrow>
             (case py_set (farthest_node t) u u of
                Inl e \<Rightarrow> Inl e
              | Inr fs \<Rightarrow>
                 farthest_children f (t\<lparr>max_depth_in_subtree := ms, farthest_node := fs\<rparr>)
                   u p (edges t u))))"
| "farthest_children f t u p [] = Inr t"
| "farthest_children f t u p (v # vs) =
     (if v \<noteq> p then
        (case compute_farthest f t v u of
           Inl e \<Rightarrow> Inl e
         | Inr t1 \<Rightarrow>
            (case py_get (max_depth_in_subtree t1) v of
               Inl e \<Rightarrow> Inl e
             | Inr mv \<Rightarrow>
                (case py_get (max_depth_in_subtree t1) u of
                   Inl e \<Rightarrow> Inl e
                 | Inr mu \<Rightarrow>
                    (if mv > mu then
                       (case py_set (max_depth_in_subtree t1) u mv of
                          Inl e \<Rightarrow> Inl e
                        | Inr ms \<Rightarrow>
                           (case py_get (farthest_node t1) v of
                              Inl e \<Rightarrow> Inl e
                            | Inr fv \<Rightarrow>
                               (case py_set (farthest_node t1) u fv of
                                  Inl e \<Rightarrow> Inl e
                                | Inr fs \<Rightarrow>
                                   farthest_children f
                                     (t1\<lparr>max_depth_in_subtree := ms, farthest_node := fs\<rparr>)
                                     u p vs)))
                     else farthest_children f t1 u p vs))))
      else farthest_children f t u p vs)"

definition preprocess :: "nat \<Rightarrow> Tree \<Rightarrow> error + Tree" where
  "preprocess fuel t =
     (case dfs fuel t 1 0 of
        Inl e \<Rightarrow> Inl e
      | Inr t1 \<Rightarrow>
         (case build_lifting t1 of
            Inl e \<Rightarrow> Inl e
          | Inr t2 \<Rightarrow>
             (case compute_farthest fuel t2 1 0 of
                Inl e \<Rightarrow> Inl e
              | Inr t3 \<Rightarrow> Inr (t3\<lparr>preprocessed := True\<rparr>))))"

subsection \<open>The queries\<close>

text \<open>
  The loop of \<open>get_kth_ancestor\<close> over \<open>i\<close> in \<open>range(LOGN + 1)\<close>; \<open>k & (1 << i)\<close> is
  Python's bitwise and on unbounded integers, and \<open>break\<close> returns the current \<open>u\<close>.
\<close>

fun kth_loop :: "Tree \<Rightarrow> int \<Rightarrow> int \<Rightarrow> nat list \<Rightarrow> error + int" where
  "kth_loop t u k [] = Inr u"
| "kth_loop t u k (i # is) =
     (if and k (push_bit i 1) \<noteq> 0 then
        (case up_get t u (int i) of
           Inl e \<Rightarrow> Inl e
         | Inr a \<Rightarrow> if a = 0 then Inr a else kth_loop t a k is)
      else kth_loop t u k is)"

definition get_kth_ancestor :: "Tree \<Rightarrow> int \<Rightarrow> int \<Rightarrow> error + int" where
  "get_kth_ancestor t u k = kth_loop t u k [0..<LOGN t + 1]"

definition is_ancestor :: "Tree \<Rightarrow> int \<Rightarrow> int \<Rightarrow> error + bool" where
  "is_ancestor t u v =
     (case py_get (depth t) v of
        Inl e \<Rightarrow> Inl e
      | Inr dv \<Rightarrow>
         (case py_get (depth t) u of
            Inl e \<Rightarrow> Inl e
          | Inr du \<Rightarrow>
             if dv < du then Inr False
             else (case get_kth_ancestor t v (dv - du) of
                     Inl e \<Rightarrow> Inl e
                   | Inr v_up \<Rightarrow> Inr (v_up = u))))"

text \<open>
  The first loop of \<open>get_farthest_distance\<close>, over \<open>k\<close> from \<open>LOGN\<close> down to \<open>0\<close>; it
  returns the final \<open>u\<close> and \<open>stamina_left\<close>.
\<close>

fun climb_loop :: "Tree \<Rightarrow> int \<Rightarrow> int \<Rightarrow> nat list \<Rightarrow> error + int \<times> int" where
  "climb_loop t u stamina_left [] = Inr (u, stamina_left)"
| "climb_loop t u stamina_left (k # ks) =
     (if stamina_left \<ge> push_bit k 1 then
        (case up_get t u (int k) of
           Inl e \<Rightarrow> Inl e
         | Inr u_ancestor \<Rightarrow>
            if u_ancestor = 0 then climb_loop t u stamina_left ks
            else climb_loop t u_ancestor (stamina_left - push_bit k 1) ks)
      else climb_loop t u stamina_left ks)"

text \<open>The second loop, over \<open>used\<close> in \<open>range(1, stamina + 1)\<close>.\<close>

fun scan_loop :: "Tree \<Rightarrow> int \<Rightarrow> int \<Rightarrow> int list \<Rightarrow> error + int" where
  "scan_loop t v max_dist [] = Inr max_dist"
| "scan_loop t v max_dist (used # rest) =
     (case get_kth_ancestor t v used of
        Inl e \<Rightarrow> Inl e
      | Inr u_ancestor \<Rightarrow>
         if u_ancestor = 0 then Inr max_dist
         else
           (case py_get (max_depth_in_subtree t) u_ancestor of
              Inl e \<Rightarrow> Inl e
            | Inr m \<Rightarrow>
               (case py_get (depth t) v of
                  Inl e \<Rightarrow> Inl e
                | Inr dv \<Rightarrow>
                   scan_loop t v (if m - dv + used > max_dist then m - dv + used else max_dist)
                     rest)))"

definition get_farthest_distance :: "Tree \<Rightarrow> int \<Rightarrow> int \<Rightarrow> error + int" where
  "get_farthest_distance t v stamina =
     (if \<not> preprocessed t then Inl RuntimeError
      else
        (case py_get (max_depth_in_subtree t) v of
           Inl e \<Rightarrow> Inl e
         | Inr m \<Rightarrow>
            (case py_get (depth t) v of
               Inl e \<Rightarrow> Inl e
             | Inr dv \<Rightarrow>
                (case climb_loop t v stamina (rev [0..<LOGN t + 1]) of
                   Inl e \<Rightarrow> Inl e
                 | Inr (u, stamina_left) \<Rightarrow> scan_loop t v (m - dv) [1..stamina]))))"

text \<open>
  Deleting the first loop of \<open>get_farthest_distance\<close> gives the function below: the
  guard, the baseline and the second loop, nothing else.
\<close>

definition get_farthest_distance_simplified :: "Tree \<Rightarrow> int \<Rightarrow> int \<Rightarrow> error + int" where
  "get_farthest_distance_simplified t v stamina =
     (if \<not> preprocessed t then Inl RuntimeError
      else
        (case py_get (max_depth_in_subtree t) v of
           Inl e \<Rightarrow> Inl e
         | Inr m \<Rightarrow>
            (case py_get (depth t) v of
               Inl e \<Rightarrow> Inl e
             | Inr dv \<Rightarrow> scan_loop t v (m - dv) [1..stamina])))"

subsection \<open>The queries as method calls\<close>

text \<open>
  A method call takes the object and returns its result, or the exception, together
  with the object it leaves behind. The functions below follow the bodies of the three
  queries statement by statement and hand the object from each step to the next.
  The only steps that touch the object are subscriptions such as \<open>self.depth[v]\<close>
  and \<open>self.up[u][i]\<close>: \<open>load\<close> evaluates one, raising \<open>IndexError\<close> as Python
  does. Everything else in the bodies assigns to the local variables \<open>u\<close>,
  \<open>stamina_left\<close>, \<open>max_dist\<close> and \<open>v_up\<close>.
\<close>

definition load :: "'a list \<Rightarrow> int \<Rightarrow> Tree \<Rightarrow> (error + 'a) \<times> Tree" where
  "load xs i t = (py_get xs i, t)"

definition up_load :: "Tree \<Rightarrow> int \<Rightarrow> int \<Rightarrow> (error + int) \<times> Tree" where
  "up_load t v k =
     (case load (up t) v t of
        (Inl e, t1) \<Rightarrow> (Inl e, t1)
      | (Inr row, t1) \<Rightarrow> load row k t1)"

fun kth_loop_call :: "Tree \<Rightarrow> int \<Rightarrow> int \<Rightarrow> nat list \<Rightarrow> (error + int) \<times> Tree" where
  "kth_loop_call t u k [] = (Inr u, t)"
| "kth_loop_call t u k (i # is) =
     (if and k (push_bit i 1) \<noteq> 0 then
        (case up_load t u (int i) of
           (Inl e, t1) \<Rightarrow> (Inl e, t1)
         | (Inr a, t1) \<Rightarrow> if a = 0 then (Inr a, t1) else kth_loop_call t1 a k is)
      else kth_loop_call t u k is)"

definition get_kth_ancestor_call :: "Tree \<Rightarrow> int \<Rightarrow> int \<Rightarrow> (error + int) \<times> Tree" where
  "get_kth_ancestor_call t u k = kth_loop_call t u k [0..<LOGN t + 1]"

definition is_ancestor_call :: "Tree \<Rightarrow> int \<Rightarrow> int \<Rightarrow> (error + bool) \<times> Tree" where
  "is_ancestor_call t u v =
     (case load (depth t) v t of
        (Inl e, t1) \<Rightarrow> (Inl e, t1)
      | (Inr dv, t1) \<Rightarrow>
         (case load (depth t1) u t1 of
            (Inl e, t2) \<Rightarrow> (Inl e, t2)
          | (Inr du, t2) \<Rightarrow>
             if dv < du then (Inr False, t2)
             else (case get_kth_ancestor_call t2 v (dv - du) of
                     (Inl e, t3) \<Rightarrow> (Inl e, t3)
                   | (Inr v_up, t3) \<Rightarrow> (Inr (v_up = u), t3))))"

fun climb_loop_call :: "Tree \<Rightarrow> int \<Rightarrow> int \<Rightarrow> nat list \<Rightarrow> (error + int \<times> int) \<times> Tree" where
  "climb_loop_call t u stamina_left [] = (Inr (u, stamina_left), t)"
| "climb_loop_call t u stamina_left (k # ks) =
     (if stamina_left \<ge> push_bit k 1 then
        (case up_load t u (int k) of
           (Inl e, t1) \<Rightarrow> (Inl e, t1)
         | (Inr u_ancestor, t1) \<Rightarrow>
            if u_ancestor = 0 then climb_loop_call t1 u stamina_left ks
            else climb_loop_call t1 u_ancestor (stamina_left - push_bit k 1) ks)
      else climb_loop_call t u stamina_left ks)"

fun scan_loop_call :: "Tree \<Rightarrow> int \<Rightarrow> int \<Rightarrow> int list \<Rightarrow> (error + int) \<times> Tree" where
  "scan_loop_call t v max_dist [] = (Inr max_dist, t)"
| "scan_loop_call t v max_dist (used # rest) =
     (case get_kth_ancestor_call t v used of
        (Inl e, t1) \<Rightarrow> (Inl e, t1)
      | (Inr u_ancestor, t1) \<Rightarrow>
         if u_ancestor = 0 then (Inr max_dist, t1)
         else
           (case load (max_depth_in_subtree t1) u_ancestor t1 of
              (Inl e, t2) \<Rightarrow> (Inl e, t2)
            | (Inr m, t2) \<Rightarrow>
               (case load (depth t2) v t2 of
                  (Inl e, t3) \<Rightarrow> (Inl e, t3)
                | (Inr dv, t3) \<Rightarrow>
                   scan_loop_call t3 v
                     (if m - dv + used > max_dist then m - dv + used else max_dist) rest)))"

definition get_farthest_distance_call :: "Tree \<Rightarrow> int \<Rightarrow> int \<Rightarrow> (error + int) \<times> Tree" where
  "get_farthest_distance_call t v stamina =
     (if \<not> preprocessed t then (Inl RuntimeError, t)
      else
        (case load (max_depth_in_subtree t) v t of
           (Inl e, t1) \<Rightarrow> (Inl e, t1)
         | (Inr m, t1) \<Rightarrow>
            (case load (depth t1) v t1 of
               (Inl e, t2) \<Rightarrow> (Inl e, t2)
             | (Inr dv, t2) \<Rightarrow>
                (case climb_loop_call t2 v stamina (rev [0..<LOGN t2 + 1]) of
                   (Inl e, t3) \<Rightarrow> (Inl e, t3)
                 | (Inr (u, stamina_left), t3) \<Rightarrow> scan_loop_call t3 v (m - dv) [1..stamina]))))"

subsection \<open>QueryProcessor and the loop body of main\<close>

fun process_queries :: "Tree \<Rightarrow> (int \<times> int) list \<Rightarrow> error + int list" where
  "process_queries t [] = Inr []"
| "process_queries t ((v, stamina) # qs) =
     (case get_farthest_distance t v stamina of
        Inl e \<Rightarrow> Inl e
      | Inr r \<Rightarrow>
         (case process_queries t qs of
            Inl e \<Rightarrow> Inl e
          | Inr rs \<Rightarrow> Inr (r # rs)))"

text \<open>One test case of main.py: build the tree, preprocess it, answer the queries.\<close>

definition main_case :: "nat \<Rightarrow> int \<Rightarrow> (int \<times> int) list \<Rightarrow> (int \<times> int) list \<Rightarrow> error + int list" where
  "main_case fuel n0 edge_list queries =
     (case preprocess fuel (build n0 edge_list) of
        Inl e \<Rightarrow> Inl e
      | Inr t \<Rightarrow> process_queries t queries)"

subsection \<open>Shape of the index\<close>

definition in_range :: "nat \<Rightarrow> int \<Rightarrow> bool" where
  "in_range m i \<longleftrightarrow> - int m \<le> i \<and> i < int m"

definition sized :: "Tree \<Rightarrow> bool" where
  "sized t \<longleftrightarrow>
     length (depth t) = nat (self_n t + 1) \<and>
     length (parent t) = nat (self_n t + 1) \<and>
     length (up t) = nat (self_n t + 1) \<and>
     length (max_depth_in_subtree t) = nat (self_n t + 1) \<and>
     length (farthest_node t) = nat (self_n t + 1) \<and>
     (\<forall>row \<in> set (up t). length row = LOGN t + 1)"

definition linked :: "Tree \<Rightarrow> bool" where
  "linked t \<longleftrightarrow>
     (\<forall>a \<in> set (parent t). in_range (nat (self_n t + 1)) a) \<and>
     (\<forall>row \<in> set (up t). \<forall>a \<in> set row. in_range (nat (self_n t + 1)) a)"

definition dfs_frame :: "Tree \<Rightarrow> Tree \<Rightarrow> bool" where
  "dfs_frame t t' \<longleftrightarrow>
     self_n t' = self_n t \<and> edges t' = edges t \<and> LOGN t' = LOGN t \<and> up t' = up t \<and>
     max_depth_in_subtree t' = max_depth_in_subtree t \<and> farthest_node t' = farthest_node t \<and>
     preprocessed t' = preprocessed t"

definition lift_frame :: "Tree \<Rightarrow> Tree \<Rightarrow> bool" where
  "lift_frame t t' \<longleftrightarrow>
     self_n t' = self_n t \<and> edges t' = edges t \<and> LOGN t' = LOGN t \<and> depth t' = depth t \<and>
     parent t' = parent t \<and>
     max_depth_in_subtree t' = max_depth_in_subtree t \<and> farthest_node t' = farthest_node t \<and>
     preprocessed t' = preprocessed t"

definition farthest_frame :: "Tree \<Rightarrow> Tree \<Rightarrow> bool" where
  "farthest_frame t t' \<longleftrightarrow>
     self_n t' = self_n t \<and> edges t' = edges t \<and> LOGN t' = LOGN t \<and> depth t' = depth t \<and>
     parent t' = parent t \<and> up t' = up t \<and> preprocessed t' = preprocessed t \<and>
     length (max_depth_in_subtree t') = length (max_depth_in_subtree t) \<and>
     length (farthest_node t') = length (farthest_node t)"

subsection \<open>Valid trees\<close>

text \<open>
  The input of the data model: \<open>n\<close> nodes \<open>1..n\<close>, \<open>n - 1\<close> edges between them,
  every node connected to node 1. \<open>rooted\<close> describes such a graph from the root: a
  parent and a level for every node, each edge joining a node to its parent.
\<close>

definition adjacent :: "(int \<times> int) list \<Rightarrow> (int \<times> int) set" where
  "adjacent es = {(a, b). (a, b) \<in> set es \<or> (b, a) \<in> set es}"

definition valid_tree :: "int \<Rightarrow> (int \<times> int) list \<Rightarrow> bool" where
  "valid_tree n0 es \<longleftrightarrow>
     1 \<le> n0 \<and> int (length es) = n0 - 1 \<and>
     (\<forall>(a, b) \<in> set es. 1 \<le> a \<and> a \<le> n0 \<and> 1 \<le> b \<and> b \<le> n0) \<and>
     (\<forall>x \<in> {1..n0}. (1, x) \<in> (adjacent es)\<^sup>*)"

definition rooted :: "int \<Rightarrow> (int \<times> int) list \<Rightarrow> (int \<Rightarrow> int) \<Rightarrow> (int \<Rightarrow> nat) \<Rightarrow> bool" where
  "rooted n0 es P D \<longleftrightarrow>
     1 \<le> n0 \<and> P 1 = 0 \<and> D 1 = 0 \<and>
     (\<forall>x \<in> {2..n0}. P x \<in> {1..n0} \<and> D x = Suc (D (P x)) \<and> (P x, x) \<in> adjacent es) \<and>
     (\<forall>(a, b) \<in> adjacent es. a \<in> {1..n0} \<and> b \<in> {1..n0} \<and> (P b = a \<or> P a = b))"

definition tree_links :: "(int \<Rightarrow> int) \<Rightarrow> int \<Rightarrow> (int \<times> int) set" where
  "tree_links P n0 = {(a, y). y \<in> {2..n0} \<and> a = P y}"

definition matches :: "(int \<Rightarrow> int) \<Rightarrow> (int \<Rightarrow> nat) \<Rightarrow> Tree \<Rightarrow> int \<Rightarrow> bool" where
  "matches P D t x \<longleftrightarrow> parent t ! nat x = P x \<and> depth t ! nat x = int (D x)"

definition dfs_pre :: "int \<Rightarrow> (int \<times> int) list \<Rightarrow> Tree \<Rightarrow> bool" where
  "dfs_pre n0 es t \<longleftrightarrow>
     self_n t = n0 \<and> length (depth t) = nat (n0 + 1) \<and> length (parent t) = nat (n0 + 1) \<and>
     (\<forall>w. set (edges t w) = {v. (w, v) \<in> adjacent es})"

definition dfs_step :: "int \<Rightarrow> (int \<Rightarrow> int) \<Rightarrow> (int \<Rightarrow> nat) \<Rightarrow> Tree \<Rightarrow> Tree \<Rightarrow> bool" where
  "dfs_step n0 P D t t' \<longleftrightarrow>
     dfs_frame t t' \<and> length (depth t') = length (depth t) \<and>
     length (parent t') = length (parent t) \<and>
     (\<forall>x \<in> {1..n0}. parent t ! nat x = P x \<longrightarrow> parent t' ! nat x = P x) \<and>
     (\<forall>x \<in> {1..n0}. depth t ! nat x = int (D x) \<longrightarrow> depth t' ! nat x = int (D x))"

definition up_parent :: "(int \<Rightarrow> int) \<Rightarrow> int \<Rightarrow> int \<Rightarrow> int" where
  "up_parent P n0 x = (if 1 \<le> x \<and> x \<le> n0 then P x else 0)"

definition lifted :: "(int \<Rightarrow> int) \<Rightarrow> Tree \<Rightarrow> nat \<Rightarrow> bool" where
  "lifted P t m \<longleftrightarrow>
     (\<forall>i \<le> LOGN t. up t ! 0 ! i = 0) \<and>
     (\<forall>w \<in> {1..self_n t}. \<forall>i < m. up t ! nat w ! i = (up_parent P (self_n t) ^^ (2 ^ i)) w)"

definition covers :: "Tree \<Rightarrow> int \<Rightarrow> bool" where
  "covers t x \<longleftrightarrow> depth t ! nat x \<le> max_depth_in_subtree t ! nat x"

definition farthest_pre :: "int \<Rightarrow> (int \<times> int) list \<Rightarrow> Tree \<Rightarrow> bool" where
  "farthest_pre n0 es t \<longleftrightarrow>
     self_n t = n0 \<and> length (depth t) = nat (n0 + 1) \<and>
     length (max_depth_in_subtree t) = nat (n0 + 1) \<and>
     length (farthest_node t) = nat (n0 + 1) \<and>
     (\<forall>w. set (edges t w) = {v. (w, v) \<in> adjacent es})"

definition farthest_step :: "int \<Rightarrow> Tree \<Rightarrow> Tree \<Rightarrow> bool" where
  "farthest_step n0 t t' \<longleftrightarrow>
     farthest_frame t t' \<and> (\<forall>x \<in> {1..n0}. covers t x \<longrightarrow> covers t' x)"

section \<open>Index safety\<close>

lemma bind_Inr:
  "(case m of Inl e \<Rightarrow> Inl e | Inr x \<Rightarrow> f x) = Inr y \<longleftrightarrow> (\<exists>x. m = Inr x \<and> f x = Inr y)"
  by (cases m) auto

lemma py_index_Some: "py_index xs i = Some j \<Longrightarrow> j < length xs \<and> in_range (length xs) i"
  by (auto simp: py_index_def in_range_def split: if_splits)

lemma py_index_None: "py_index xs i = None \<longleftrightarrow> \<not> in_range (length xs) i"
  by (auto simp: py_index_def in_range_def split: if_splits)

lemma py_get_Inr: "py_get xs i = Inr x \<Longrightarrow> in_range (length xs) i \<and> x \<in> set xs"
  by (auto simp: py_get_def split: option.splits dest: py_index_Some)

lemma py_set_Inr:
  "py_set xs i x = Inr ys \<Longrightarrow>
     in_range (length xs) i \<and> length ys = length xs \<and> set ys \<subseteq> insert x (set xs)"
  by (auto simp: py_set_def split: option.splits dest: py_index_Some set_update_subset_insert [THEN subsetD])

lemma py_get_total: "in_range (length xs) i \<Longrightarrow> \<exists>x. py_get xs i = Inr x"
  by (cases "py_index xs i") (auto simp: py_get_def py_index_None)

lemma py_get_error: "\<not> in_range (length xs) i \<Longrightarrow> py_get xs i = Inl IndexError"
  by (simp add: py_get_def py_index_None [THEN iffD2])

lemma dfs_safe:
  "dfs f t u p = Inr t' \<Longrightarrow> sized t \<Longrightarrow> linked t \<Longrightarrow> in_range (nat (self_n t + 1)) p \<Longrightarrow>
     sized t' \<and> linked t' \<and> dfs_frame t t'"
  "dfs_children f t u p vs = Inr t' \<Longrightarrow> sized t \<Longrightarrow> linked t \<Longrightarrow>
     in_range (nat (self_n t + 1)) u \<Longrightarrow>
     sized t' \<and> linked t' \<and> dfs_frame t t'"
proof (induction f t u p and f t u p vs arbitrary: t' and t' rule: dfs_dfs_children.induct)
  case (1 t u p)
  then show ?case by simp
next
  case (2 f t u p)
  from "2.prems"(1) obtain ps where ps: "py_set (parent t) u p = Inr ps"
    and run: "dfs_children f (t\<lparr>parent := ps\<rparr>) u p (edges t u) = Inr t'"
    by (auto simp: bind_Inr)
  let ?t1 = "t\<lparr>parent := ps\<rparr>"
  from py_set_Inr [OF ps] "2.prems" have "sized ?t1" "linked ?t1" "in_range (nat (self_n ?t1 + 1)) u"
    by (auto simp: sized_def linked_def)
  from "2.IH" [OF ps run this] show ?case
    by (simp add: dfs_frame_def)
next
  case (3 f t u p)
  then show ?case by (simp add: dfs_frame_def)
next
  case (4 f t u p v vs)
  show ?case
  proof (cases "v = p")
    case True
    with "4.prems" "4.IH"(3) show ?thesis by simp
  next
    case False
    with "4.prems"(1) obtain du ds t1 where du: "py_get (depth t) u = Inr du"
      and ds: "py_set (depth t) v (du + 1) = Inr ds"
      and t1: "dfs f (t\<lparr>depth := ds\<rparr>) v u = Inr t1"
      and rest: "dfs_children f t1 u p vs = Inr t'"
      by (auto simp: bind_Inr)
    let ?t0 = "t\<lparr>depth := ds\<rparr>"
    from py_set_Inr [OF ds] "4.prems" have "sized ?t0" "linked ?t0" "in_range (nat (self_n ?t0 + 1)) u"
      by (auto simp: sized_def linked_def)
    from "4.IH"(1) [OF False du ds t1 this]
    have a: "sized t1" "linked t1" "dfs_frame ?t0 t1" by simp_all
    then have "in_range (nat (self_n t1 + 1)) u"
      using "4.prems"(4) by (simp add: dfs_frame_def)
    from "4.IH"(2) [OF False du ds t1 rest a(1,2) this] a(3)
    show ?thesis by (simp add: dfs_frame_def)
  qed
qed

lemma lift_frame_refl: "lift_frame t t"
  by (simp add: lift_frame_def)

lemma lift_frame_trans: "lift_frame t t1 \<Longrightarrow> lift_frame t1 t2 \<Longrightarrow> lift_frame t t2"
  by (simp add: lift_frame_def)

lemma up_get_linked:
  "up_get t v k = Inr a \<Longrightarrow> linked t \<Longrightarrow> in_range (nat (self_n t + 1)) a"
  by (auto simp: up_get_def linked_def bind_Inr dest!: py_get_Inr)

lemma up_set_safe:
  assumes "up_set t v k x = Inr t'" "sized t" "linked t" "in_range (nat (self_n t + 1)) x"
  shows "sized t' \<and> linked t' \<and> lift_frame t t'"
proof -
  from assms(1) obtain row row' ups where row: "py_get (up t) v = Inr row"
    and row': "py_set row k x = Inr row'" and ups: "py_set (up t) v row' = Inr ups"
    and t': "t' = t\<lparr>up := ups\<rparr>"
    by (auto simp: up_set_def bind_Inr)
  from py_get_Inr [OF row] have r: "row \<in> set (up t)" by simp
  from py_set_Inr [OF row'] have r': "length row' = length row" "set row' \<subseteq> insert x (set row)"
    by simp_all
  from py_set_Inr [OF ups] have u: "length ups = length (up t)" "set ups \<subseteq> insert row' (set (up t))"
    by simp_all
  have rows: "row'' = row' \<or> row'' \<in> set (up t)" if "row'' \<in> set ups" for row''
    using that u(2) by auto
  have "\<forall>row'' \<in> set ups. length row'' = LOGN t + 1"
  proof
    fix row'' assume "row'' \<in> set ups"
    from rows [OF this] show "length row'' = LOGN t + 1"
      using assms(2) r r'(1) by (auto simp: sized_def)
  qed
  then have "sized t'"
    using assms(2) u(1) by (simp add: sized_def t')
  moreover have "\<forall>row'' \<in> set ups. \<forall>a \<in> set row''. in_range (nat (self_n t + 1)) a"
  proof (intro ballI)
    fix row'' a assume "row'' \<in> set ups" and a: "a \<in> set row''"
    from rows [OF this(1)] show "in_range (nat (self_n t + 1)) a"
    proof
      assume "row'' = row'"
      with a r'(2) have "a = x \<or> a \<in> set row" by auto
      then show ?thesis using assms(3,4) r by (auto simp: linked_def)
    next
      assume "row'' \<in> set (up t)"
      then show ?thesis using assms(3) a by (auto simp: linked_def)
    qed
  qed
  then have "linked t'"
    using assms(3) by (simp add: linked_def t')
  ultimately show ?thesis by (simp add: lift_frame_def t')
qed

lemma lift_base_safe:
  "lift_base t vs = Inr t' \<Longrightarrow> sized t \<Longrightarrow> linked t \<Longrightarrow>
     sized t' \<and> linked t' \<and> lift_frame t t'"
proof (induction vs arbitrary: t)
  case Nil
  then show ?case by (simp add: lift_frame_refl)
next
  case (Cons v vs)
  from Cons.prems(1) obtain pv t1 where pv: "py_get (parent t) v = Inr pv"
    and t1: "up_set t v 0 pv = Inr t1" and rest: "lift_base t1 vs = Inr t'"
    by (auto simp: bind_Inr)
  from py_get_Inr [OF pv] Cons.prems(3) have "in_range (nat (self_n t + 1)) pv"
    by (simp add: linked_def)
  from up_set_safe [OF t1 Cons.prems(2,3) this]
  have a: "sized t1" "linked t1" "lift_frame t t1" by simp_all
  from Cons.IH [OF rest a(1,2)] a(3) show ?case
    by (blast intro: lift_frame_trans)
qed

lemma lift_row_safe:
  "lift_row t k vs = Inr t' \<Longrightarrow> sized t \<Longrightarrow> linked t \<Longrightarrow>
     sized t' \<and> linked t' \<and> lift_frame t t'"
proof (induction vs arbitrary: t)
  case Nil
  then show ?case by (simp add: lift_frame_refl)
next
  case (Cons v vs)
  from Cons.prems(1) obtain a b t1 where a: "up_get t v (k - 1) = Inr a"
    and b: "up_get t a (k - 1) = Inr b"
    and t1: "up_set t v k b = Inr t1" and rest: "lift_row t1 k vs = Inr t'"
    by (auto simp: bind_Inr)
  from up_set_safe [OF t1 Cons.prems(2,3) up_get_linked [OF b Cons.prems(3)]]
  have c: "sized t1" "linked t1" "lift_frame t t1" by simp_all
  from Cons.IH [OF rest c(1,2)] c(3) show ?case
    by (blast intro: lift_frame_trans)
qed

lemma lift_levels_safe:
  "lift_levels t ks = Inr t' \<Longrightarrow> sized t \<Longrightarrow> linked t \<Longrightarrow>
     sized t' \<and> linked t' \<and> lift_frame t t'"
proof (induction ks arbitrary: t)
  case Nil
  then show ?case by (simp add: lift_frame_refl)
next
  case (Cons k ks)
  from Cons.prems(1) obtain t1 where t1: "lift_row t k [1..self_n t] = Inr t1"
    and rest: "lift_levels t1 ks = Inr t'"
    by (auto simp: bind_Inr)
  from lift_row_safe [OF t1 Cons.prems(2,3)]
  have c: "sized t1" "linked t1" "lift_frame t t1" by simp_all
  from Cons.IH [OF rest c(1,2)] c(3) show ?case
    by (blast intro: lift_frame_trans)
qed

lemma build_lifting_safe:
  assumes "build_lifting t = Inr t'" "sized t" "linked t"
  shows "sized t' \<and> linked t' \<and> lift_frame t t'"
proof -
  from assms(1) obtain t1 where t1: "lift_base t [1..self_n t] = Inr t1"
    and t': "lift_levels t1 [1..int (LOGN t1)] = Inr t'"
    by (auto simp: build_lifting_def bind_Inr)
  from lift_base_safe [OF t1 assms(2,3)]
  have c: "sized t1" "linked t1" "lift_frame t t1" by simp_all
  from lift_levels_safe [OF t' c(1,2)] c(3) show ?thesis
    by (blast intro: lift_frame_trans)
qed

lemma compute_farthest_frame:
  "compute_farthest f t u p = Inr t' \<Longrightarrow> farthest_frame t t'"
  "farthest_children f t u p vs = Inr t' \<Longrightarrow> farthest_frame t t'"
proof (induction f t u p and f t u p vs arbitrary: t' and t' rule: compute_farthest_farthest_children.induct)
  case (1 t u p)
  then show ?case by simp
next
  case (2 f t u p)
  from "2.prems"(1) obtain du ms fs where du: "py_get (depth t) u = Inr du"
    and ms: "py_set (max_depth_in_subtree t) u du = Inr ms"
    and fs: "py_set (farthest_node t) u u = Inr fs"
    and run: "farthest_children f (t\<lparr>max_depth_in_subtree := ms, farthest_node := fs\<rparr>) u p (edges t u) = Inr t'"
    by (auto simp: bind_Inr)
  from "2.IH" [OF du ms fs run] py_set_Inr [OF ms] py_set_Inr [OF fs] show ?case
    by (simp add: farthest_frame_def)
next
  case (3 f t u p)
  then show ?case by (simp add: farthest_frame_def)
next
  case (4 f t u p v vs)
  show ?case
  proof (cases "v = p")
    case True
    with "4.prems" "4.IH"(4) show ?thesis by simp
  next
    case False
    with "4.prems"(1) obtain t1 mv mu where t1: "compute_farthest f t v u = Inr t1"
      and mv: "py_get (max_depth_in_subtree t1) v = Inr mv"
      and mu: "py_get (max_depth_in_subtree t1) u = Inr mu"
      by (auto simp: bind_Inr)
    from "4.IH"(1) [OF False t1] have a: "farthest_frame t t1" .
    show ?thesis
    proof (cases "mv > mu")
      case True
      with "4.prems"(1) False t1 mv mu obtain ms fv fs
        where ms: "py_set (max_depth_in_subtree t1) u mv = Inr ms"
        and fv: "py_get (farthest_node t1) v = Inr fv"
        and fs: "py_set (farthest_node t1) u fv = Inr fs"
        and rest: "farthest_children f (t1\<lparr>max_depth_in_subtree := ms, farthest_node := fs\<rparr>) u p vs = Inr t'"
        by (auto simp: bind_Inr)
      from "4.IH"(2) [OF False t1 mv mu True ms fv fs rest] a
        py_set_Inr [OF ms] py_set_Inr [OF fs]
      show ?thesis by (simp add: farthest_frame_def)
    next
      case nogain: False
      with "4.prems"(1) False t1 mv mu have rest: "farthest_children f t1 u p vs = Inr t'"
        by simp
      from "4.IH"(3) [OF False t1 mv mu nogain rest] a
      show ?thesis by (simp add: farthest_frame_def)
    qed
  qed
qed

lemma add_edge_fields:
  "self_n (add_edge t u v) = self_n t" "LOGN (add_edge t u v) = LOGN t"
  "preprocessed (add_edge t u v) = preprocessed t" "depth (add_edge t u v) = depth t"
  "parent (add_edge t u v) = parent t" "up (add_edge t u v) = up t"
  "max_depth_in_subtree (add_edge t u v) = max_depth_in_subtree t"
  "farthest_node (add_edge t u v) = farthest_node t"
  by (simp_all add: add_edge_def Let_def)

lemma add_edges_fields:
  "self_n (add_edges t es) = self_n t \<and> LOGN (add_edges t es) = LOGN t \<and>
   preprocessed (add_edges t es) = preprocessed t \<and> depth (add_edges t es) = depth t \<and>
   parent (add_edges t es) = parent t \<and> up (add_edges t es) = up t \<and>
   max_depth_in_subtree (add_edges t es) = max_depth_in_subtree t \<and>
   farthest_node (add_edges t es) = farthest_node t"
  by (induction t es rule: add_edges.induct) (simp_all add: add_edge_fields)

lemma sized_add_edges: "sized (add_edges t es) = sized t"
  by (simp add: sized_def add_edges_fields)

lemma linked_add_edges: "linked (add_edges t es) = linked t"
  by (simp add: linked_def add_edges_fields)

lemma sized_build: "sized (build n0 es)"
  by (simp add: build_def sized_add_edges) (simp add: sized_def Tree_init_def)

lemma linked_build: "linked (build n0 es)"
  by (simp add: build_def linked_add_edges) (auto simp: linked_def Tree_init_def in_range_def)

lemma build_fields:
  "self_n (build n0 es) = n0 \<and> LOGN (build n0 es) = max 1 (bit_length n0) \<and>
   \<not> preprocessed (build n0 es)"
  by (simp add: build_def add_edges_fields) (simp add: Tree_init_def)

lemma dfs_root_range: "dfs f t u p = Inr t' \<Longrightarrow> in_range (length (parent t)) u"
  by (cases f) (auto simp: bind_Inr dest: py_set_Inr)

lemma preprocess_safe:
  assumes "preprocess fuel (build n0 es) = Inr t"
  shows "sized t \<and> linked t \<and> preprocessed t \<and> self_n t = n0 \<and> 1 \<le> n0"
proof -
  let ?b = "build n0 es"
  from assms obtain t1 t2 t3 where t1: "dfs fuel ?b 1 0 = Inr t1"
    and t2: "build_lifting t1 = Inr t2"
    and t3: "compute_farthest fuel t2 1 0 = Inr t3"
    and t: "t = t3\<lparr>preprocessed := True\<rparr>"
    by (auto simp: preprocess_def bind_Inr)
  from dfs_root_range [OF t1] sized_build [of n0 es] build_fields [of n0 es]
  have n0: "1 \<le> n0" by (simp add: sized_def in_range_def)
  then have "in_range (nat (self_n ?b + 1)) 0"
    using build_fields [of n0 es] by (simp add: in_range_def)
  from dfs_safe(1) [OF t1 sized_build linked_build this]
  have a: "sized t1" "linked t1" "dfs_frame ?b t1" by simp_all
  from build_lifting_safe [OF t2 a(1,2)]
  have b: "sized t2" "linked t2" "lift_frame t1 t2" by simp_all
  from compute_farthest_frame(1) [OF t3] have c: "farthest_frame t2 t3" .
  have "sized t3" using b(1) c by (simp add: sized_def farthest_frame_def)
  moreover have "linked t3" using b(2) c by (simp add: linked_def farthest_frame_def)
  moreover have "self_n t3 = n0"
    using a(3) b(3) c build_fields [of n0 es]
    by (simp add: dfs_frame_def lift_frame_def farthest_frame_def)
  ultimately show ?thesis using n0 by (simp add: t sized_def linked_def)
qed

lemma up_get_total:
  assumes "sized t" "in_range (nat (self_n t + 1)) v" "i \<le> LOGN t"
  shows "\<exists>a. up_get t v (int i) = Inr a"
proof -
  from assms(1,2) have "in_range (length (up t)) v" by (simp add: sized_def)
  from py_get_total [OF this] obtain row where row: "py_get (up t) v = Inr row" ..
  from py_get_Inr [OF row] assms(1) have "length row = LOGN t + 1" by (simp add: sized_def)
  with assms(3) have "in_range (length row) (int i)" by (simp add: in_range_def)
  from py_get_total [OF this] row show ?thesis by (simp add: up_get_def)
qed

lemma kth_loop_safe:
  "sized t \<Longrightarrow> linked t \<Longrightarrow> in_range (nat (self_n t + 1)) u \<Longrightarrow> \<forall>i \<in> set js. i \<le> LOGN t \<Longrightarrow>
     \<exists>a. kth_loop t u k js = Inr a \<and> in_range (nat (self_n t + 1)) a"
proof (induction js arbitrary: u)
  case Nil
  then show ?case by simp
next
  case (Cons i js)
  show ?case
  proof (cases "and k (push_bit i 1) \<noteq> 0")
    case True
    from Cons.prems have "i \<le> LOGN t" by simp
    from up_get_total [OF Cons.prems(1,3) this] obtain a where a: "up_get t u (int i) = Inr a" ..
    from up_get_linked [OF a Cons.prems(2)] have ra: "in_range (nat (self_n t + 1)) a" .
    show ?thesis
    proof (cases "a = 0")
      case True
      with \<open>and k (push_bit i 1) \<noteq> 0\<close> a ra show ?thesis by simp
    next
      case False
      from Cons.IH [OF Cons.prems(1,2) ra] Cons.prems(4)
      show ?thesis using \<open>and k (push_bit i 1) \<noteq> 0\<close> a False by simp
    qed
  next
    case False
    from Cons.IH [OF Cons.prems(1,2,3)] Cons.prems(4) False show ?thesis by simp
  qed
qed

lemma get_kth_ancestor_safe:
  "sized t \<Longrightarrow> linked t \<Longrightarrow> in_range (nat (self_n t + 1)) u \<Longrightarrow>
     \<exists>a. get_kth_ancestor t u k = Inr a \<and> in_range (nat (self_n t + 1)) a"
  unfolding get_kth_ancestor_def by (rule kth_loop_safe) auto

lemma climb_loop_safe:
  "sized t \<Longrightarrow> linked t \<Longrightarrow> in_range (nat (self_n t + 1)) u \<Longrightarrow> \<forall>i \<in> set js. i \<le> LOGN t \<Longrightarrow>
     \<exists>r. climb_loop t u sl js = Inr r"
proof (induction js arbitrary: u sl)
  case Nil
  then show ?case by simp
next
  case (Cons i js)
  show ?case
  proof (cases "sl \<ge> push_bit i 1")
    case True
    from Cons.prems have "i \<le> LOGN t" by simp
    from up_get_total [OF Cons.prems(1,3) this] obtain a where a: "up_get t u (int i) = Inr a" ..
    from up_get_linked [OF a Cons.prems(2)] have ra: "in_range (nat (self_n t + 1)) a" .
    show ?thesis
    proof (cases "a = 0")
      case True
      from Cons.IH [OF Cons.prems(1,2,3)] Cons.prems(4)
      show ?thesis using \<open>sl \<ge> push_bit i 1\<close> a True by simp
    next
      case False
      from Cons.IH [OF Cons.prems(1,2) ra] Cons.prems(4)
      show ?thesis using \<open>sl \<ge> push_bit i 1\<close> a False by simp
    qed
  next
    case False
    from Cons.IH [OF Cons.prems(1,2,3)] Cons.prems(4) False show ?thesis by simp
  qed
qed

lemma scan_loop_safe:
  "sized t \<Longrightarrow> linked t \<Longrightarrow> in_range (nat (self_n t + 1)) v \<Longrightarrow>
     \<exists>r. scan_loop t v md us = Inr r \<and> md \<le> r"
proof (induction us arbitrary: md)
  case Nil
  then show ?case by simp
next
  case (Cons used us)
  from get_kth_ancestor_safe [OF Cons.prems] obtain a
    where a: "get_kth_ancestor t v used = Inr a" and ra: "in_range (nat (self_n t + 1)) a"
    by blast
  show ?case
  proof (cases "a = 0")
    case True
    with a show ?thesis by simp
  next
    case False
    from ra Cons.prems(1) have "in_range (length (max_depth_in_subtree t)) a"
      by (simp add: sized_def)
    from py_get_total [OF this] obtain m where m: "py_get (max_depth_in_subtree t) a = Inr m" ..
    from Cons.prems(1,3) have "in_range (length (depth t)) v"
      by (simp add: sized_def)
    from py_get_total [OF this] obtain dv where dv: "py_get (depth t) v = Inr dv" ..
    let ?md = "if m - dv + used > md then m - dv + used else md"
    from Cons.IH [OF Cons.prems, of ?md] obtain r
      where r: "scan_loop t v ?md us = Inr r" and le: "?md \<le> r" by blast
    from le have "md \<le> r" by (simp split: if_splits)
    with r a False m dv show ?thesis by simp
  qed
qed

lemma scan_loop_append:
  "sized t \<Longrightarrow> linked t \<Longrightarrow> in_range (nat (self_n t + 1)) v \<Longrightarrow>
     scan_loop t v md xs = Inr r1 \<Longrightarrow> scan_loop t v md (xs @ ys) = Inr r2 \<Longrightarrow> r1 \<le> r2"
proof (induction xs arbitrary: md)
  case Nil
  from scan_loop_safe [OF Nil.prems(1,2,3), of md ys] Nil.prems(4,5)
  show ?case by auto
next
  case (Cons used xs)
  from Cons.prems(4) obtain a where a: "get_kth_ancestor t v used = Inr a"
    by (auto simp: bind_Inr)
  show ?case
  proof (cases "a = 0")
    case True
    with a Cons.prems(4,5) show ?thesis by simp
  next
    case False
    with a Cons.prems(4) obtain m dv where m: "py_get (max_depth_in_subtree t) a = Inr m"
      and dv: "py_get (depth t) v = Inr dv"
      by (auto simp: bind_Inr)
    let ?md = "if m - dv + used > md then m - dv + used else md"
    from Cons.prems(4,5) a False m dv
    have "scan_loop t v ?md xs = Inr r1" "scan_loop t v ?md (xs @ ys) = Inr r2"
      by simp_all
    from Cons.IH [OF Cons.prems(1,2,3) this] show ?thesis .
  qed
qed

lemma upto_stamina_split:
  assumes "0 \<le> s1" "s1 \<le> s2"
  shows "[1..s2] = [1..s1] @ [s1 + 1..s2]"
proof (cases "s1 = 0")
  case True
  then show ?thesis by simp
next
  case False
  with assms have "1 \<le> s1" by simp
  from upto_split2 [OF this assms(2)] show ?thesis .
qed

lemma get_farthest_distance_safe:
  assumes "sized t" "linked t" "preprocessed t" "in_range (nat (self_n t + 1)) v"
  shows "\<exists>m dv r. py_get (max_depth_in_subtree t) v = Inr m \<and> py_get (depth t) v = Inr dv \<and>
           scan_loop t v (m - dv) [1..s] = Inr r \<and> get_farthest_distance t v s = Inr r"
proof -
  from assms(1,4) have "in_range (length (max_depth_in_subtree t)) v"
    by (simp add: sized_def)
  from py_get_total [OF this] obtain m where m: "py_get (max_depth_in_subtree t) v = Inr m" ..
  from assms(1,4) have "in_range (length (depth t)) v"
    by (simp add: sized_def)
  from py_get_total [OF this] obtain dv where dv: "py_get (depth t) v = Inr dv" ..
  from climb_loop_safe [OF assms(1,2,4), of "rev [0..<LOGN t + 1]" s]
  obtain c where c: "climb_loop t v s (rev [0..<LOGN t + 1]) = Inr c" by auto
  from scan_loop_safe [OF assms(1,2,4), of "m - dv" "[1..s]"]
  obtain r where r: "scan_loop t v (m - dv) [1..s] = Inr r" by blast
  from m dv c r assms(3) show ?thesis
    by (simp add: get_farthest_distance_def split: prod.splits)
qed

lemma py_get_Inl: "py_get xs i = Inl e \<Longrightarrow> e = IndexError"
  by (auto simp: py_get_def split: option.splits)

lemma up_get_error: "\<not> in_range (length (up t)) u \<Longrightarrow> up_get t u i = Inl IndexError"
  by (simp add: up_get_def py_get_error)

lemma kth_loop_out_of_range:
  "\<not> in_range (length (up t)) u \<Longrightarrow>
     kth_loop t u k js =
       (if \<exists>i \<in> set js. and k (push_bit i 1) \<noteq> 0 then Inl IndexError else Inr u)"
  by (induction js) (simp_all add: up_get_error)

lemma star_runs: "\<not> isl (preprocess 1000 (build 4 [(1, 2), (1, 3), (1, 4)]))"
  by code_simp

section \<open>The method calls and the functions they compute\<close>

lemma up_load_eq: "up_load t v k = (up_get t v k, t)"
  by (simp add: up_load_def load_def up_get_def split: sum.splits)

lemma kth_loop_call_eq: "kth_loop_call t u k js = (kth_loop t u k js, t)"
  by (induction js arbitrary: u) (simp_all add: up_load_eq split: sum.splits)

lemma get_kth_ancestor_call_eq: "get_kth_ancestor_call t u k = (get_kth_ancestor t u k, t)"
  by (simp add: get_kth_ancestor_call_def get_kth_ancestor_def kth_loop_call_eq)

lemma is_ancestor_call_eq: "is_ancestor_call t u v = (is_ancestor t u v, t)"
  by (simp add: is_ancestor_call_def is_ancestor_def load_def get_kth_ancestor_call_eq
      split: sum.splits)

lemma climb_loop_call_eq: "climb_loop_call t u sl ks = (climb_loop t u sl ks, t)"
  by (induction ks arbitrary: u sl) (simp_all add: up_load_eq split: sum.splits)

lemma scan_loop_call_eq: "scan_loop_call t v md us = (scan_loop t v md us, t)"
  by (induction us arbitrary: md)
    (simp_all add: get_kth_ancestor_call_eq load_def split: sum.splits)

lemma get_farthest_distance_call_eq:
  "get_farthest_distance_call t v s = (get_farthest_distance t v s, t)"
  by (simp add: get_farthest_distance_call_def get_farthest_distance_def load_def
      climb_loop_call_eq scan_loop_call_eq split: sum.splits prod.splits)

section \<open>The errors of preprocess\<close>

lemma bind_Inl:
  "(case m of Inl e \<Rightarrow> Inl e | Inr x \<Rightarrow> f x) = Inl e \<longleftrightarrow>
     m = Inl e \<or> (\<exists>x. m = Inr x \<and> f x = Inl e)"
  by (cases m) auto

lemma py_set_Inl: "py_set xs i x = Inl e \<Longrightarrow> e = IndexError"
  by (auto simp: py_set_def split: option.splits)

lemma dfs_errors:
  "dfs f t u p = Inl e \<Longrightarrow> e = IndexError \<or> e = RecursionError"
  "dfs_children f t u p vs = Inl e \<Longrightarrow> e = IndexError \<or> e = RecursionError"
proof (induction f t u p and f t u p vs rule: dfs_dfs_children.induct)
  case (1 t u p)
  then show ?case by simp
next
  case (2 f t u p)
  from "2.prems" "2.IH" show ?case
    by (auto simp: bind_Inl dest: py_set_Inl)
next
  case (3 f t u p)
  then show ?case by simp
next
  case (4 f t u p v vs)
  show ?case
  proof (cases "v = p")
    case True
    with "4.prems" "4.IH"(3) show ?thesis by simp
  next
    case False
    with "4.prems" "4.IH"(1,2) show ?thesis
      by (auto simp: bind_Inl dest: py_set_Inl py_get_Inl)
  qed
qed

lemma up_get_Inl: "up_get t v k = Inl e \<Longrightarrow> e = IndexError"
  by (auto simp: up_get_def bind_Inl dest: py_get_Inl)

lemma up_set_Inl: "up_set t v k x = Inl e \<Longrightarrow> e = IndexError"
  by (auto simp: up_set_def bind_Inl dest: py_get_Inl py_set_Inl)

lemma lift_base_Inl: "lift_base t vs = Inl e \<Longrightarrow> e = IndexError"
  by (induction vs arbitrary: t) (auto simp: bind_Inl dest: py_get_Inl up_set_Inl)

lemma lift_row_Inl: "lift_row t k vs = Inl e \<Longrightarrow> e = IndexError"
  by (induction vs arbitrary: t) (auto simp: bind_Inl dest: up_get_Inl up_set_Inl)

lemma lift_levels_Inl: "lift_levels t ks = Inl e \<Longrightarrow> e = IndexError"
  by (induction ks arbitrary: t) (auto simp: bind_Inl dest: lift_row_Inl)

lemma build_lifting_Inl: "build_lifting t = Inl e \<Longrightarrow> e = IndexError"
  by (auto simp: build_lifting_def bind_Inl dest: lift_base_Inl lift_levels_Inl)

lemma compute_farthest_errors:
  "compute_farthest f t u p = Inl e \<Longrightarrow> e = IndexError \<or> e = RecursionError"
  "farthest_children f t u p vs = Inl e \<Longrightarrow> e = IndexError \<or> e = RecursionError"
proof (induction f t u p and f t u p vs rule: compute_farthest_farthest_children.induct)
  case (1 t u p)
  then show ?case by simp
next
  case (2 f t u p)
  from "2.prems" "2.IH" show ?case
    by (auto simp: bind_Inl dest: py_set_Inl py_get_Inl)
next
  case (3 f t u p)
  then show ?case by simp
next
  case (4 f t u p v vs)
  show ?case
  proof (cases "v = p")
    case True
    with "4.prems" "4.IH"(4) show ?thesis by simp
  next
    case False
    show ?thesis
    proof (cases "compute_farthest f t v u")
      case (Inl e')
      with "4.prems" False "4.IH"(1) show ?thesis by simp
    next
      case t1: (Inr t1)
      show ?thesis
      proof (cases "py_get (max_depth_in_subtree t1) v")
        case (Inl e')
        with "4.prems" False t1 show ?thesis by (auto dest: py_get_Inl)
      next
        case mv: (Inr mv)
        show ?thesis
        proof (cases "py_get (max_depth_in_subtree t1) u")
          case (Inl e')
          with "4.prems" False t1 mv show ?thesis by (auto dest: py_get_Inl)
        next
          case mu: (Inr mu)
          show ?thesis
          proof (cases "mv > mu")
            case True
            with "4.prems" False t1 mv mu "4.IH"(2) [OF False t1 mv mu True] show ?thesis
              by (auto simp: bind_Inl dest: py_set_Inl py_get_Inl)
          next
            case nogain: False
            with "4.prems" False t1 mv mu "4.IH"(3) [OF False t1 mv mu nogain] show ?thesis
              by simp
          qed
        qed
      qed
    qed
  qed
qed

lemma preprocess_errors:
  "preprocess fuel t = Inl e \<Longrightarrow> e = IndexError \<or> e = RecursionError"
  by (auto simp: preprocess_def bind_Inl
      dest: dfs_errors(1) build_lifting_Inl compute_farthest_errors(1))

section \<open>Valid trees: what preprocess computes\<close>

lemma valid_tree_rooted:
  assumes "valid_tree n0 es"
  shows "\<exists>P D. rooted n0 es P D"
proof -
  define R where "R = adjacent es"
  from assms have n0: "1 \<le> n0" and len: "int (length es) = n0 - 1"
    and conn: "\<And>x. x \<in> {1..n0} \<Longrightarrow> (1, x) \<in> R\<^sup>*"
    by (simp_all add: valid_tree_def R_def)
  have ends: "a \<in> {1..n0} \<and> b \<in> {1..n0}" if "(a, b) \<in> R" for a b
    using that assms by (auto simp: valid_tree_def R_def adjacent_def)
  define D where "D x = (LEAST k. (1, x) \<in> R ^^ k)" for x
  have Dreach: "(1, x) \<in> R ^^ D x" if "x \<in> {1..n0}" for x
  proof -
    from conn [OF that] obtain k where "(1, x) \<in> R ^^ k"
      by (auto dest: rtrancl_imp_relpow)
    then show ?thesis unfolding D_def by (rule LeastI)
  qed
  have Dleast: "D x \<le> k" if "(1, x) \<in> R ^^ k" for x k
    unfolding D_def using that by (rule Least_le)
  have D1: "D 1 = 0"
    using Dleast [of 1 0] by simp
  have step: "\<exists>y. (y, x) \<in> R \<and> D x = Suc (D y)" if x: "x \<in> {1..n0}" "x \<noteq> 1" for x
  proof -
    have "D x \<noteq> 0"
    proof
      assume "D x = 0"
      with Dreach [OF x(1)] have "(1, x) \<in> R ^^ 0" by simp
      with x(2) show False by simp
    qed
    then obtain d where d: "D x = Suc d" by (cases "D x") auto
    with Dreach [OF x(1)] have "(1, x) \<in> R ^^ Suc d" by simp
    then obtain y where y: "(1, y) \<in> R ^^ d" "(y, x) \<in> R" by auto
    from Dleast [OF y(1)] have le: "D y \<le> d" .
    from ends [OF y(2)] have "y \<in> {1..n0}" by simp
    from Dreach [OF this] y(2) have "(1, x) \<in> R ^^ Suc (D y)" by auto
    from Dleast [OF this] d have "d \<le> D y" by simp
    with le d y(2) show ?thesis by auto
  qed
  define P where "P x = (if x = 1 then 0 else SOME y. (y, x) \<in> R \<and> D x = Suc (D y))" for x
  have Pprop: "(P x, x) \<in> R \<and> D x = Suc (D (P x))" if x: "x \<in> {2..n0}" for x
  proof -
    from x have "x \<in> {1..n0}" "x \<noteq> 1" by simp_all
    from someI_ex [OF step [OF this]] \<open>x \<noteq> 1\<close> show ?thesis by (simp add: P_def)
  qed
  define U where "U = (\<lambda>(a, b). {a, b}) ` set es"
  define T where "T = (\<lambda>x. {P x, x}) ` {2..n0}"
  have "card U \<le> card (set es)" unfolding U_def by (rule card_image_le) simp
  also have "\<dots> \<le> length es" by (rule card_length)
  finally have cardU: "card U \<le> length es" .
  have inj: "inj_on (\<lambda>x. {P x, x}) {2..n0}"
  proof (rule inj_onI)
    fix x y assume x: "x \<in> {2..n0}" and y: "y \<in> {2..n0}" and eq: "{P x, x} = {P y, y}"
    show "x = y"
    proof (rule ccontr)
      assume "x \<noteq> y"
      with eq have py: "P y = x" and px: "P x = y" by (auto simp: doubleton_eq_iff)
      from Pprop [OF x] have "D x = Suc (D y)" by (simp only: px)
      moreover from Pprop [OF y] have "D y = Suc (D x)" by (simp only: py)
      ultimately show False by linarith
    qed
  qed
  have "card T = card {2..n0}" unfolding T_def using inj by (rule card_image)
  with len have cardT: "card T = length es" by simp
  have sub: "T \<subseteq> U"
  proof
    fix s assume "s \<in> T"
    then obtain x where x: "x \<in> {2..n0}" and s: "s = {P x, x}" by (auto simp: T_def)
    from Pprop [OF x] have "(P x, x) \<in> set es \<or> (x, P x) \<in> set es"
      by (auto simp: R_def adjacent_def)
    then show "s \<in> U"
    proof
      assume "(P x, x) \<in> set es"
      then have "(\<lambda>(a, b). {a, b}) (P x, x) \<in> U" unfolding U_def by (rule imageI)
      with s show ?thesis by simp
    next
      assume "(x, P x) \<in> set es"
      then have "(\<lambda>(a, b). {a, b}) (x, P x) \<in> U" unfolding U_def by (rule imageI)
      with s show ?thesis by (simp add: insert_commute)
    qed
  qed
  have "finite U" by (simp add: U_def)
  from card_seteq [OF this sub] cardU cardT have TU: "T = U" by simp
  have link: "P b = a \<or> P a = b" if "(a, b) \<in> R" for a b
  proof -
    from that have "{a, b} \<in> U"
      by (force simp: U_def R_def adjacent_def insert_commute)
    with TU obtain x where "{a, b} = {P x, x}" by (auto simp: T_def)
    then show ?thesis by (auto simp: doubleton_eq_iff)
  qed
  have "rooted n0 es P D"
    unfolding rooted_def
  proof (intro conjI ballI)
    show "1 \<le> n0" by (rule n0)
    show "P 1 = 0" by (simp add: P_def)
    show "D 1 = 0" by (rule D1)
  next
    fix x assume x: "x \<in> {2..n0}"
    from Pprop [OF x] ends [of "P x" x]
    show "P x \<in> {1..n0}" and "D x = Suc (D (P x))" and "(P x, x) \<in> adjacent es"
      by (simp_all add: R_def)
  next
    fix e assume "e \<in> adjacent es"
    then show "case e of (a, b) \<Rightarrow> a \<in> {1..n0} \<and> b \<in> {1..n0} \<and> (P b = a \<or> P a = b)"
      using ends link by (cases e) (simp add: R_def)
  qed
  then show ?thesis by blast
qed

lemma py_get_nat: "0 \<le> i \<Longrightarrow> i < int (length xs) \<Longrightarrow> py_get xs i = Inr (xs ! nat i)"
  by (simp add: py_get_def py_index_def)

lemma py_set_nat: "0 \<le> i \<Longrightarrow> i < int (length xs) \<Longrightarrow> py_set xs i x = Inr (xs[nat i := x])"
  by (simp add: py_set_def py_index_def)

lemma nth_update_cell:
  "0 \<le> x \<Longrightarrow> 0 \<le> u \<Longrightarrow> u < int (length xs) \<Longrightarrow>
     xs[nat u := y] ! nat x = (if x = u then y else xs ! nat x)"
  by (cases "x = u") (simp_all add: eq_nat_nat_iff)

lemma edges_add_edge:
  "set (edges (add_edge t a b) w) =
     set (edges t w) \<union> (if w = a then {b} else {}) \<union> (if w = b then {a} else {})"
  by (auto simp: add_edge_def Let_def)

lemma edges_add_edges:
  "set (edges (add_edges t es) w) = set (edges t w) \<union> {v. (w, v) \<in> adjacent es}"
proof (induction t es rule: add_edges.induct)
  case (1 t)
  then show ?case by (simp add: adjacent_def)
next
  case (2 t u v es)
  have "{x. (w, x) \<in> adjacent ((u, v) # es)} =
      (if w = u then {v} else {}) \<union> (if w = v then {u} else {}) \<union> {x. (w, x) \<in> adjacent es}"
    by (auto simp: adjacent_def)
  with "2.IH" show ?case
    by (simp only: add_edges.simps edges_add_edge Un_assoc)
qed

lemma edges_build: "set (edges (build n0 es) w) = {v. (w, v) \<in> adjacent es}"
  by (simp add: build_def edges_add_edges) (simp add: Tree_init_def)

lemma dfs_pre_build: "dfs_pre n0 es (build n0 es)"
  using sized_build [of n0 es] build_fields [of n0 es]
  by (simp add: dfs_pre_def edges_build sized_def)

lemma dfs_step_refl: "dfs_step n0 P D t t"
  by (simp add: dfs_step_def dfs_frame_def)

lemma dfs_step_trans: "dfs_step n0 P D t t1 \<Longrightarrow> dfs_step n0 P D t1 t2 \<Longrightarrow> dfs_step n0 P D t t2"
  by (simp add: dfs_step_def dfs_frame_def)

lemma dfs_step_pre: "dfs_step n0 P D t t' \<Longrightarrow> dfs_pre n0 es t \<Longrightarrow> dfs_pre n0 es t'"
  by (simp add: dfs_step_def dfs_frame_def dfs_pre_def)

lemma dfs_step_matches:
  "dfs_step n0 P D t t' \<Longrightarrow> x \<in> {1..n0} \<Longrightarrow> matches P D t x \<Longrightarrow> matches P D t' x"
  by (simp add: dfs_step_def matches_def)

lemma dfs_step_depth:
  "dfs_step n0 P D t t' \<Longrightarrow> x \<in> {1..n0} \<Longrightarrow> depth t ! nat x = int (D x) \<Longrightarrow>
     depth t' ! nat x = int (D x)"
  by (simp add: dfs_step_def)

lemma dfs_step_parent:
  assumes "dfs_pre n0 es t" "u \<in> {1..n0}"
  shows "dfs_step n0 P D t (t\<lparr>parent := (parent t)[nat u := P u]\<rparr>)"
  unfolding dfs_step_def dfs_frame_def
proof (intro conjI ballI impI)
  fix x assume "x \<in> {1..n0}" "parent t ! nat x = P x"
  with assms show "parent (t\<lparr>parent := (parent t)[nat u := P u]\<rparr>) ! nat x = P x"
    by (simp add: dfs_pre_def nth_update_cell)
qed simp_all

lemma dfs_step_depth_write:
  assumes "dfs_pre n0 es t" "v \<in> {1..n0}"
  shows "dfs_step n0 P D t (t\<lparr>depth := (depth t)[nat v := int (D v)]\<rparr>)"
  unfolding dfs_step_def dfs_frame_def
proof (intro conjI ballI impI)
  fix x assume "x \<in> {1..n0}" "depth t ! nat x = int (D x)"
  with assms show "depth (t\<lparr>depth := (depth t)[nat v := int (D v)]\<rparr>) ! nat x = int (D x)"
    by (simp add: dfs_pre_def nth_update_cell)
qed simp_all

lemma rooted_child:
  assumes "rooted n0 es P D" "u \<in> {1..n0}" "(u, v) \<in> adjacent es" "v \<noteq> P u"
  shows "v \<in> {2..n0} \<and> P v = u \<and> D v = Suc (D u)"
proof -
  from assms(1,3) have v: "v \<in> {1..n0}" and l: "P v = u \<or> P u = v"
    by (auto simp: rooted_def)
  with assms(4) have pv: "P v = u" by auto
  have "v \<noteq> 1"
  proof
    assume "v = 1"
    with pv assms(1) have "u = 0" by (simp add: rooted_def)
    with assms(2) show False by simp
  qed
  with v have v2: "v \<in> {2..n0}" by simp
  with assms(1) have "D v = Suc (D (P v))" by (simp add: rooted_def)
  with pv v2 show ?thesis by simp
qed

lemma rooted_link:
  assumes "rooted n0 es P D" "(u, c) \<in> tree_links P n0" "u \<in> {1..n0}"
  shows "(u, c) \<in> adjacent es \<and> c \<noteq> P u"
proof -
  from assms(2) have c: "c \<in> {2..n0}" and u: "u = P c" by (simp_all add: tree_links_def)
  from assms(1) c have a: "(P c, c) \<in> adjacent es" "D c = Suc (D (P c))"
    by (simp_all add: rooted_def)
  have "c \<noteq> P u"
  proof
    assume cu: "c = P u"
    have "u \<noteq> 1"
    proof
      assume "u = 1"
      with cu assms(1) have "c = 0" by (simp add: rooted_def)
      with c show False by simp
    qed
    with assms(3) have "u \<in> {2..n0}" by simp
    with assms(1) have "D u = Suc (D (P u))" by (simp add: rooted_def)
    then have "D u = Suc (D c)" by (simp only: cu)
    moreover from a(2) have "D c = Suc (D u)" by (simp only: u)
    ultimately show False by linarith
  qed
  with a(1) u show ?thesis by simp
qed

lemma tree_links_range: "(u, x) \<in> (tree_links P n0)\<^sup>* \<Longrightarrow> u \<in> {1..n0} \<Longrightarrow> x \<in> {1..n0}"
  by (induction rule: rtrancl_induct) (auto simp: tree_links_def)

lemma dfs_rooted:
  assumes R: "rooted n0 es P D"
  shows "dfs f t u p = Inr t' \<Longrightarrow> p = P u \<Longrightarrow> u \<in> {1..n0} \<Longrightarrow> dfs_pre n0 es t \<Longrightarrow>
           depth t ! nat u = int (D u) \<Longrightarrow>
         dfs_step n0 P D t t' \<and> (\<forall>x. (u, x) \<in> (tree_links P n0)\<^sup>* \<longrightarrow> matches P D t' x)"
    and "dfs_children f t u p vs = Inr t' \<Longrightarrow> p = P u \<Longrightarrow> u \<in> {1..n0} \<Longrightarrow> dfs_pre n0 es t \<Longrightarrow>
           depth t ! nat u = int (D u) \<Longrightarrow> set vs \<subseteq> {v. (u, v) \<in> adjacent es} \<Longrightarrow>
         dfs_step n0 P D t t' \<and>
         (\<forall>c \<in> set vs. c \<noteq> p \<longrightarrow> (\<forall>x. (c, x) \<in> (tree_links P n0)\<^sup>* \<longrightarrow> matches P D t' x))"
proof (induction f t u p and f t u p vs arbitrary: t' and t' rule: dfs_dfs_children.induct)
  case (1 t u p)
  then show ?case by simp
next
  case (2 f t u p)
  from "2.prems"(3,4) have ur: "0 \<le> u" "u < int (length (parent t))"
    by (simp_all add: dfs_pre_def)
  let ?t1 = "t\<lparr>parent := (parent t)[nat u := P u]\<rparr>"
  from "2.prems"(1) py_set_nat [OF ur] "2.prems"(2)
  have ps: "py_set (parent t) u p = Inr ((parent t)[nat u := P u])"
    and run: "dfs_children f ?t1 u p (edges t u) = Inr t'"
    by simp_all
  from dfs_step_parent [OF "2.prems"(4,3)] have s1: "dfs_step n0 P D t ?t1" .
  from dfs_step_pre [OF s1 "2.prems"(4)] have pre1: "dfs_pre n0 es ?t1" .
  from "2.prems"(5) have d1: "depth ?t1 ! nat u = int (D u)" by simp
  from "2.prems"(4) have sub: "set (edges t u) \<subseteq> {v. (u, v) \<in> adjacent es}"
    by (simp add: dfs_pre_def)
  from "2.IH" [OF ps run "2.prems"(2,3) pre1 d1 sub]
  have s2: "dfs_step n0 P D ?t1 t'"
    and post: "\<And>c x. c \<in> set (edges t u) \<Longrightarrow> c \<noteq> p \<Longrightarrow> (c, x) \<in> (tree_links P n0)\<^sup>* \<Longrightarrow>
        matches P D t' x"
    by blast+
  from ur have "matches P D ?t1 u" using d1 by (simp add: matches_def)
  from dfs_step_matches [OF s2 "2.prems"(3) this] have mu: "matches P D t' u" .
  have "matches P D t' x" if x: "(u, x) \<in> (tree_links P n0)\<^sup>*" for x
  proof (cases "x = u")
    case True
    with mu show ?thesis by simp
  next
    case False
    with x obtain c where c: "(u, c) \<in> tree_links P n0" "(c, x) \<in> (tree_links P n0)\<^sup>*"
      by (auto elim: converse_rtranclE)
    from rooted_link [OF R c(1) "2.prems"(3)] "2.prems"(2,4)
    have "c \<in> set (edges t u)" "c \<noteq> p" by (simp_all add: dfs_pre_def)
    from post [OF this c(2)] show ?thesis .
  qed
  with dfs_step_trans [OF s1 s2] show ?case by blast
next
  case (3 f t u p)
  then show ?case by (simp add: dfs_step_refl)
next
  case (4 f t u p v vs)
  from "4.prems"(6) have sub: "set vs \<subseteq> {v. (u, v) \<in> adjacent es}" by simp
  show ?case
  proof (cases "v = p")
    case True
    with "4.prems"(1) have rest: "dfs_children f t u p vs = Inr t'" by simp
    from "4.IH"(3) [OF _ rest "4.prems"(2,3,4,5) sub] True show ?thesis by simp
  next
    case False
    from "4.prems"(6) have "(u, v) \<in> adjacent es" by simp
    from rooted_child [OF R "4.prems"(3) this] False "4.prems"(2)
    have v: "v \<in> {2..n0}" "P v = u" "D v = Suc (D u)" by simp_all
    from "4.prems"(3,4) have ur: "0 \<le> u" "u < int (length (depth t))"
      by (simp_all add: dfs_pre_def)
    from v(1) "4.prems"(4) have vr: "0 \<le> v" "v < int (length (depth t))" and v1: "v \<in> {1..n0}"
      by (simp_all add: dfs_pre_def)
    from py_get_nat [OF ur] "4.prems"(5) have du: "py_get (depth t) u = Inr (int (D u))" by simp
    let ?t0 = "t\<lparr>depth := (depth t)[nat v := int (D v)]\<rparr>"
    from v(3) have "int (D v) = int (D u) + 1" by simp
    with py_set_nat [OF vr, of "int (D u) + 1"]
    have ds: "py_set (depth t) v (int (D u) + 1) = Inr ((depth t)[nat v := int (D v)])"
      by (simp only:)
    from "4.prems"(1) False du ds obtain t1 where t1: "dfs f ?t0 v u = Inr t1"
      and rest: "dfs_children f t1 u p vs = Inr t'"
      by (auto simp: bind_Inr)
    from dfs_step_depth_write [OF "4.prems"(4) v1] have s0: "dfs_step n0 P D t ?t0" .
    from dfs_step_pre [OF s0 "4.prems"(4)] have pre0: "dfs_pre n0 es ?t0" .
    from vr have d0: "depth ?t0 ! nat v = int (D v)" by simp
    from "4.IH"(1) [OF False du ds t1 v(2) [symmetric] v1 pre0 d0]
    have s1: "dfs_step n0 P D ?t0 t1"
      and post1: "\<And>x. (v, x) \<in> (tree_links P n0)\<^sup>* \<Longrightarrow> matches P D t1 x"
      by blast+
    from dfs_step_trans [OF s0 s1] have s01: "dfs_step n0 P D t t1" .
    from dfs_step_pre [OF s01 "4.prems"(4)] have pre1: "dfs_pre n0 es t1" .
    from dfs_step_depth [OF s01 "4.prems"(3,5)] have d1: "depth t1 ! nat u = int (D u)" .
    from "4.IH"(2) [OF False du ds t1 rest "4.prems"(2,3) pre1 d1 sub]
    have s2: "dfs_step n0 P D t1 t'"
      and post2: "\<And>c x. c \<in> set vs \<Longrightarrow> c \<noteq> p \<Longrightarrow> (c, x) \<in> (tree_links P n0)\<^sup>* \<Longrightarrow>
        matches P D t' x"
      by blast+
    have "matches P D t' x" if c: "c \<in> set (v # vs)" "c \<noteq> p" "(c, x) \<in> (tree_links P n0)\<^sup>*" for c x
    proof (cases "c = v")
      case True
      with c(3) post1 have m: "matches P D t1 x" by simp
      from tree_links_range [OF c(3)] True v1 have "x \<in> {1..n0}" by simp
      from dfs_step_matches [OF s2 this m] show ?thesis .
    next
      case False
      with c(1) have "c \<in> set vs" by simp
      from post2 [OF this c(2,3)] show ?thesis .
    qed
    with dfs_step_trans [OF s01 s2] show ?thesis by blast
  qed
qed

lemma all_linked:
  assumes "rooted n0 es P D"
  shows "x \<in> {1..n0} \<Longrightarrow> (1, x) \<in> (tree_links P n0)\<^sup>*"
proof (induction "D x" arbitrary: x)
  case 0
  have "x = 1"
  proof (rule ccontr)
    assume "x \<noteq> 1"
    with "0.prems" have "x \<in> {2..n0}" by simp
    with assms have "D x = Suc (D (P x))" by (simp add: rooted_def)
    with "0.hyps" show False by simp
  qed
  then show ?case by simp
next
  case (Suc d)
  from Suc.hyps(2) assms have "x \<noteq> 1" by (auto simp: rooted_def)
  with Suc.prems have x: "x \<in> {2..n0}" by simp
  with assms have p: "P x \<in> {1..n0}" "D x = Suc (D (P x))" by (simp_all add: rooted_def)
  with Suc.hyps(2) have "d = D (P x)" by simp
  from Suc.hyps(1) [OF this p(1)] have "(1, P x) \<in> (tree_links P n0)\<^sup>*" .
  moreover from x have "(P x, x) \<in> tree_links P n0" by (simp add: tree_links_def)
  ultimately show ?case by (rule rtrancl_into_rtrancl)
qed

lemma dfs_root:
  assumes R: "rooted n0 es P D" and run: "dfs f (build n0 es) 1 0 = Inr t1"
  shows "dfs_step n0 P D (build n0 es) t1 \<and> (\<forall>x \<in> {1..n0}. matches P D t1 x)"
proof -
  from R have n0: "1 \<le> n0" and p1: "0 = P 1" and d1: "D 1 = 0" by (simp_all add: rooted_def)
  from n0 have one: "1 \<in> {1..n0}" by simp
  have "depth (build n0 es) = replicate (nat (n0 + 1)) 0"
    by (simp add: build_def add_edges_fields) (simp add: Tree_init_def)
  with n0 d1 have d: "depth (build n0 es) ! nat 1 = int (D 1)" by simp
  from dfs_rooted(1) [OF R run p1 one dfs_pre_build d] all_linked [OF R]
  show ?thesis by blast
qed

lemma up_get_nat:
  assumes "sized t" "0 \<le> v" "v \<le> self_n t" "j \<le> LOGN t"
  shows "up_get t v (int j) = Inr (up t ! nat v ! j)"
proof -
  from assms(1,2,3) have v: "v < int (length (up t))" "nat v < length (up t)"
    by (simp_all add: sized_def)
  then have "up t ! nat v \<in> set (up t)" by simp
  with assms(1) have "length (up t ! nat v) = LOGN t + 1" by (simp add: sized_def)
  with assms(4) have "int j < int (length (up t ! nat v))" by simp
  with py_get_nat [OF assms(2) v(1)] show ?thesis
    by (simp add: up_get_def py_get_nat)
qed

lemma up_set_cells:
  assumes "sized t" "0 \<le> v" "v \<le> self_n t" "k \<le> LOGN t"
  shows "\<exists>t'. up_set t v (int k) x = Inr t' \<and> sized t' \<and> lift_frame t t' \<and>
           (\<forall>w j. 0 \<le> w \<longrightarrow> w \<le> self_n t \<longrightarrow> j \<le> LOGN t \<longrightarrow>
              up t' ! nat w ! j = (if w = v \<and> j = k then x else up t ! nat w ! j))"
proof -
  let ?row = "up t ! nat v"
  let ?ups = "(up t)[nat v := ?row[k := x]]"
  let ?t' = "t\<lparr>up := ?ups\<rparr>"
  from assms(1,2,3) have v: "v < int (length (up t))" "nat v < length (up t)"
    by (simp_all add: sized_def)
  then have "?row \<in> set (up t)" by simp
  with assms(1) have len: "length ?row = LOGN t + 1" by (simp add: sized_def)
  with assms(4) have k: "int k < int (length ?row)" by simp
  have run: "up_set t v (int k) x = Inr ?t'"
    by (simp add: up_set_def py_get_nat [OF assms(2) v(1)] py_set_nat [OF _ k]
        py_set_nat [OF assms(2) v(1)])
  have rows: "\<forall>row \<in> set ?ups. length row = LOGN t + 1"
  proof
    fix row assume "row \<in> set ?ups"
    then have "row = ?row[k := x] \<or> row \<in> set (up t)"
      using set_update_subset_insert [of "up t" "nat v" "?row[k := x]"] by auto
    with len assms(1) show "length row = LOGN t + 1" by (auto simp: sized_def)
  qed
  with assms(1) have sz: "sized ?t'" by (simp add: sized_def)
  have cells: "up ?t' ! nat w ! j = (if w = v \<and> j = k then x else up t ! nat w ! j)"
    if "0 \<le> w" "w \<le> self_n t" "j \<le> LOGN t" for w j
  proof (cases "w = v")
    case True
    with v(2) len that(3) assms(4) show ?thesis by (simp add: nth_list_update)
  next
    case False
    with that(1) assms(2) have "nat w \<noteq> nat v" by (simp add: eq_nat_nat_iff)
    with False show ?thesis by simp
  qed
  from run sz cells show ?thesis by (auto simp: lift_frame_def)
qed

lemma lift_base_cells:
  "sized t \<Longrightarrow> set vs \<subseteq> {1..self_n t} \<Longrightarrow>
     \<exists>t'. lift_base t vs = Inr t' \<and> sized t' \<and> lift_frame t t' \<and>
       (\<forall>w j. 0 \<le> w \<longrightarrow> w \<le> self_n t \<longrightarrow> j \<le> LOGN t \<longrightarrow>
          up t' ! nat w ! j = (if w \<in> set vs \<and> j = 0 then parent t ! nat w else up t ! nat w ! j))"
proof (induction vs arbitrary: t)
  case Nil
  then show ?case by (simp add: lift_frame_refl)
next
  case (Cons v vs)
  from Cons.prems have v: "0 \<le> v" "v \<le> self_n t" "v < int (length (parent t))"
    by (simp_all add: sized_def)
  from up_set_cells [OF Cons.prems(1) v(1,2), of 0 "parent t ! nat v"]
  obtain t1 where t1: "up_set t v 0 (parent t ! nat v) = Inr t1" "sized t1" "lift_frame t t1"
    and c1: "\<And>w j. 0 \<le> w \<Longrightarrow> w \<le> self_n t \<Longrightarrow> j \<le> LOGN t \<Longrightarrow>
       up t1 ! nat w ! j = (if w = v \<and> j = 0 then parent t ! nat v else up t ! nat w ! j)"
    by auto
  from t1(3) have same: "self_n t1 = self_n t" "LOGN t1 = LOGN t" "parent t1 = parent t"
    by (simp_all add: lift_frame_def)
  from Cons.prems(2) same have "set vs \<subseteq> {1..self_n t1}" by simp
  from Cons.IH [OF t1(2) this] obtain t' where t': "lift_base t1 vs = Inr t'" "sized t'"
    "lift_frame t1 t'"
    and c2: "\<And>w j. 0 \<le> w \<Longrightarrow> w \<le> self_n t1 \<Longrightarrow> j \<le> LOGN t1 \<Longrightarrow>
       up t' ! nat w ! j = (if w \<in> set vs \<and> j = 0 then parent t1 ! nat w else up t1 ! nat w ! j)"
    by auto
  have run: "lift_base t (v # vs) = Inr t'"
    using t1(1) t'(1) by (simp add: py_get_nat [OF v(1,3)])
  have "up t' ! nat w ! j =
      (if w \<in> set (v # vs) \<and> j = 0 then parent t ! nat w else up t ! nat w ! j)"
    if "0 \<le> w" "w \<le> self_n t" "j \<le> LOGN t" for w j
    using c2 [of w j] c1 [of w j] that same by auto
  with run t'(2) lift_frame_trans [OF t1(3) t'(3)] show ?case by blast
qed

lemma lift_row_cells:
  "sized t \<Longrightarrow> set vs \<subseteq> {1..self_n t} \<Longrightarrow> Suc j \<le> LOGN t \<Longrightarrow>
   (\<forall>w. 0 \<le> w \<longrightarrow> w \<le> self_n t \<longrightarrow> 0 \<le> up t ! nat w ! j \<and> up t ! nat w ! j \<le> self_n t) \<Longrightarrow>
     \<exists>t'. lift_row t (int (Suc j)) vs = Inr t' \<and> sized t' \<and> lift_frame t t' \<and>
       (\<forall>w i. 0 \<le> w \<longrightarrow> w \<le> self_n t \<longrightarrow> i \<le> LOGN t \<longrightarrow>
          up t' ! nat w ! i =
            (if w \<in> set vs \<and> i = Suc j then up t ! nat (up t ! nat w ! j) ! j
             else up t ! nat w ! i))"
proof (induction vs arbitrary: t)
  case Nil
  then show ?case by (simp add: lift_frame_refl)
next
  case (Cons v vs)
  from Cons.prems have v: "0 \<le> v" "v \<le> self_n t" and j: "j \<le> LOGN t"
    by simp_all
  let ?a = "up t ! nat v ! j"
  let ?b = "up t ! nat ?a ! j"
  from Cons.prems(4) v have a: "0 \<le> ?a" "?a \<le> self_n t" by simp_all
  have g1: "up_get t v (int (Suc j) - 1) = Inr ?a"
    using up_get_nat [OF Cons.prems(1) v j] by simp
  have g2: "up_get t ?a (int (Suc j) - 1) = Inr ?b"
    using up_get_nat [OF Cons.prems(1) a j] by simp
  from up_set_cells [OF Cons.prems(1) v Cons.prems(3), of ?b]
  obtain t1 where t1: "up_set t v (int (Suc j)) ?b = Inr t1" "sized t1" "lift_frame t t1"
    and c1: "\<And>w i. 0 \<le> w \<Longrightarrow> w \<le> self_n t \<Longrightarrow> i \<le> LOGN t \<Longrightarrow>
       up t1 ! nat w ! i = (if w = v \<and> i = Suc j then ?b else up t ! nat w ! i)"
    by auto
  from t1(3) have same: "self_n t1 = self_n t" "LOGN t1 = LOGN t"
    by (simp_all add: lift_frame_def)
  have colj: "up t1 ! nat w ! j = up t ! nat w ! j" if "0 \<le> w" "w \<le> self_n t" for w
    using c1 [OF that j] by simp
  from Cons.prems(2) same have p2: "set vs \<subseteq> {1..self_n t1}" by simp
  from Cons.prems(3) same have p3: "Suc j \<le> LOGN t1" by simp
  from Cons.prems(4) colj same
  have p4: "\<forall>w. 0 \<le> w \<longrightarrow> w \<le> self_n t1 \<longrightarrow> 0 \<le> up t1 ! nat w ! j \<and> up t1 ! nat w ! j \<le> self_n t1"
    by simp
  from Cons.IH [OF t1(2) p2 p3 p4] obtain t' where t': "lift_row t1 (int (Suc j)) vs = Inr t'"
    "sized t'" "lift_frame t1 t'"
    and c2: "\<And>w i. 0 \<le> w \<Longrightarrow> w \<le> self_n t1 \<Longrightarrow> i \<le> LOGN t1 \<Longrightarrow>
       up t' ! nat w ! i =
         (if w \<in> set vs \<and> i = Suc j then up t1 ! nat (up t1 ! nat w ! j) ! j
          else up t1 ! nat w ! i)"
    by auto
  have run: "lift_row t (int (Suc j)) (v # vs) = Inr t'"
    using g1 g2 t1(1) t'(1) by (simp del: of_nat_Suc)
  have "up t' ! nat w ! i =
      (if w \<in> set (v # vs) \<and> i = Suc j then up t ! nat (up t ! nat w ! j) ! j
       else up t ! nat w ! i)"
    if w: "0 \<le> w" "w \<le> self_n t" "i \<le> LOGN t" for w i
  proof (cases "w \<in> set vs \<and> i = Suc j")
    case True
    from Cons.prems(4) w have aw: "0 \<le> up t ! nat w ! j" "up t ! nat w ! j \<le> self_n t"
      by simp_all
    from c2 [of w i] w same True
    have "up t' ! nat w ! i = up t1 ! nat (up t1 ! nat w ! j) ! j" by simp
    also have "\<dots> = up t ! nat (up t ! nat w ! j) ! j"
      using colj [OF w(1,2)] colj [OF aw] by simp
    finally show ?thesis using True by simp
  next
    case False
    from c2 [of w i] w same False have "up t' ! nat w ! i = up t1 ! nat w ! i" by auto
    with c1 [OF w] False show ?thesis by auto
  qed
  with run t'(2) lift_frame_trans [OF t1(3) t'(3)] show ?case by blast
qed

lemma nat_diff_split_off: "int p + b \<le> a \<Longrightarrow> nat (a - b) = nat (a - (int p + b)) + p"
  by arith

lemma up_parent_zero: "(up_parent P n0 ^^ m) 0 = 0"
  by (induction m) (simp_all add: up_parent_def)

lemma up_parent_range:
  assumes "rooted n0 es P D" "0 \<le> x" "x \<le> n0"
  shows "0 \<le> up_parent P n0 x \<and> up_parent P n0 x \<le> n0"
proof (cases "x \<in> {2..n0}")
  case True
  with assms(1) have "P x \<in> {1..n0}" by (simp add: rooted_def)
  with True show ?thesis by (simp add: up_parent_def)
next
  case False
  with assms(2,3) have x: "x = 0 \<or> x = 1" by auto
  from assms(1) have "P 1 = 0" "1 \<le> n0" by (simp_all add: rooted_def)
  with x show ?thesis by (auto simp: up_parent_def)
qed

lemma up_parent_funpow_range:
  assumes "rooted n0 es P D" "0 \<le> x" "x \<le> n0"
  shows "0 \<le> (up_parent P n0 ^^ m) x \<and> (up_parent P n0 ^^ m) x \<le> n0"
proof (induction m)
  case 0
  from assms show ?case by simp
next
  case (Suc m)
  from up_parent_range [OF assms(1), of "(up_parent P n0 ^^ m) x"] Suc show ?case by simp
qed

lemma lifted_cell:
  assumes "lifted P t m" "0 \<le> w" "w \<le> self_n t" "i < m" "i \<le> LOGN t"
  shows "up t ! nat w ! i = (up_parent P (self_n t) ^^ (2 ^ i)) w"
proof (cases "w = 0")
  case True
  with assms(1,5) show ?thesis by (simp add: lifted_def up_parent_zero)
next
  case False
  with assms(2,3) have "w \<in> {1..self_n t}" by simp
  with assms(1,4) show ?thesis by (simp add: lifted_def)
qed

lemma lift_levels_lifted:
  assumes R: "rooted n0 es P D"
  shows "sized t \<Longrightarrow> self_n t = n0 \<Longrightarrow> lifted P t m \<Longrightarrow> 1 \<le> m \<Longrightarrow> m \<le> LOGN t + 1 \<Longrightarrow>
     \<exists>t'. lift_levels t [int m..int (LOGN t)] = Inr t' \<and> sized t' \<and> lift_frame t t' \<and>
       lifted P t' (LOGN t + 1)"
proof (induction "LOGN t + 1 - m" arbitrary: m t)
  case 0
  then have "m = LOGN t + 1" by simp
  with "0.prems" show ?case by (simp add: lift_frame_refl)
next
  case (Suc d)
  from Suc.hyps(2) have m: "m \<le> LOGN t" by simp
  from Suc.prems(4) obtain j where j: "m = Suc j" by (cases m) auto
  with m have jl: "j \<le> LOGN t" "Suc j \<le> LOGN t" "j < m" by simp_all
  have col: "\<forall>w. 0 \<le> w \<longrightarrow> w \<le> self_n t \<longrightarrow>
      0 \<le> up t ! nat w ! j \<and> up t ! nat w ! j \<le> self_n t"
  proof (intro allI impI)
    fix w assume w: "0 \<le> w" "w \<le> self_n t"
    from lifted_cell [OF Suc.prems(3) w jl(3,1)] up_parent_funpow_range [OF R, of w "2 ^ j"] w
      Suc.prems(2)
    show "0 \<le> up t ! nat w ! j \<and> up t ! nat w ! j \<le> self_n t" by simp
  qed
  have vs: "set [1..self_n t] \<subseteq> {1..self_n t}" by simp
  from lift_row_cells [OF Suc.prems(1) vs jl(2) col]
  obtain t1 where t1: "lift_row t (int (Suc j)) [1..self_n t] = Inr t1" "sized t1"
    "lift_frame t t1"
    and c1: "\<And>w i. 0 \<le> w \<Longrightarrow> w \<le> self_n t \<Longrightarrow> i \<le> LOGN t \<Longrightarrow>
       up t1 ! nat w ! i =
         (if w \<in> set [1..self_n t] \<and> i = Suc j then up t ! nat (up t ! nat w ! j) ! j
          else up t ! nat w ! i)"
    by auto
  from t1(3) have same: "self_n t1 = self_n t" "LOGN t1 = LOGN t"
    by (simp_all add: lift_frame_def)
  have l1: "lifted P t1 (Suc m)"
    unfolding lifted_def
  proof (intro conjI allI impI ballI)
    fix i assume "i \<le> LOGN t1"
    moreover from R Suc.prems(2) have "0 \<le> self_n t" by (simp add: rooted_def)
    ultimately show "up t1 ! 0 ! i = 0"
      using c1 [of 0 i] same Suc.prems(3) by (simp add: lifted_def)
  next
    fix w i assume w: "w \<in> {1..self_n t1}" and i: "i < Suc m"
    from w same have wr: "0 \<le> w" "w \<le> self_n t" by simp_all
    from i m have il: "i \<le> LOGN t" by simp
    show "up t1 ! nat w ! i = (up_parent P (self_n t1) ^^ (2 ^ i)) w"
    proof (cases "i = m")
      case True
      let ?a = "up t ! nat w ! j"
      from col wr have a: "0 \<le> ?a" "?a \<le> self_n t" by simp_all
      from c1 [OF wr il] True j w same have "up t1 ! nat w ! i = up t ! nat ?a ! j" by simp
      also have "\<dots> = (up_parent P (self_n t) ^^ (2 ^ j)) ?a"
        by (rule lifted_cell [OF Suc.prems(3) a jl(3,1)])
      also have "?a = (up_parent P (self_n t) ^^ (2 ^ j)) w"
        by (rule lifted_cell [OF Suc.prems(3) wr jl(3,1)])
      finally show ?thesis
        using True j same by (simp add: funpow_add mult_2)
    next
      case False
      with i have im: "i < m" by simp
      from c1 [OF wr il] False j have "up t1 ! nat w ! i = up t ! nat w ! i" by simp
      with lifted_cell [OF Suc.prems(3) wr im il] same show ?thesis by simp
    qed
  qed
  from Suc.hyps(2) same have d: "d = LOGN t1 + 1 - Suc m" by simp
  from Suc.prems(2) same have n1: "self_n t1 = n0" by simp
  from m same have m1: "Suc m \<le> LOGN t1 + 1" by simp
  from Suc.hyps(1) [OF d t1(2) n1 l1 _ m1] obtain t'
    where t': "lift_levels t1 [int (Suc m)..int (LOGN t1)] = Inr t'" "sized t'"
      "lift_frame t1 t'" "lifted P t' (LOGN t1 + 1)"
    by auto
  from m have "[int m..int (LOGN t)] = int m # [int m + 1..int (LOGN t)]"
    by (subst upto_rec1) simp_all
  with t1(1) t'(1) j same have "lift_levels t [int m..int (LOGN t)] = Inr t'"
    by (simp add: add.commute)
  with t'(2,4) lift_frame_trans [OF t1(3) t'(3)] same show ?case by auto
qed

lemma build_lifting_lifted:
  assumes R: "rooted n0 es P D" and sz: "sized t" and n: "self_n t = n0"
    and par: "\<forall>x \<in> {1..n0}. parent t ! nat x = P x"
    and zero: "\<forall>i \<le> LOGN t. up t ! 0 ! i = 0"
  shows "\<exists>t'. build_lifting t = Inr t' \<and> sized t' \<and> lift_frame t t' \<and>
           lifted P t' (LOGN t + 1)"
proof -
  have vs: "set [1..self_n t] \<subseteq> {1..self_n t}" by simp
  from lift_base_cells [OF sz vs]
  obtain t1 where t1: "lift_base t [1..self_n t] = Inr t1" "sized t1" "lift_frame t t1"
    and c1: "\<And>w j. 0 \<le> w \<Longrightarrow> w \<le> self_n t \<Longrightarrow> j \<le> LOGN t \<Longrightarrow>
       up t1 ! nat w ! j =
         (if w \<in> set [1..self_n t] \<and> j = 0 then parent t ! nat w else up t ! nat w ! j)"
    by auto
  from t1(3) have same: "self_n t1 = self_n t" "LOGN t1 = LOGN t"
    by (simp_all add: lift_frame_def)
  have l1: "lifted P t1 1"
    unfolding lifted_def
  proof (intro conjI allI impI ballI)
    fix i assume "i \<le> LOGN t1"
    moreover from R n have "0 \<le> self_n t" by (simp add: rooted_def)
    ultimately show "up t1 ! 0 ! i = 0"
      using c1 [of 0 i] same zero by simp
  next
    fix w i assume w: "w \<in> {1..self_n t1}" and i: "i < (1::nat)"
    with c1 [of w 0] same par n
    show "up t1 ! nat w ! i = (up_parent P (self_n t1) ^^ (2 ^ i)) w"
      by (simp add: up_parent_def)
  qed
  from n same have n1: "self_n t1 = n0" by simp
  from lift_levels_lifted [OF R t1(2) n1 l1] obtain t'
    where t': "lift_levels t1 [int 1..int (LOGN t1)] = Inr t'" "sized t'"
      "lift_frame t1 t'" "lifted P t' (LOGN t1 + 1)"
    by auto
  from t1(1) t'(1) have "build_lifting t = Inr t'" by (simp add: build_lifting_def)
  with t'(2,4) lift_frame_trans [OF t1(3) t'(3)] same show ?thesis by auto
qed

lemma kth_loop_lifted:
  assumes R: "rooted n0 es P D" and sz: "sized t" and n: "self_n t = n0"
    and l: "lifted P t (LOGN t + 1)"
  shows "0 \<le> u \<Longrightarrow> u \<le> n0 \<Longrightarrow> i \<le> LOGN t + 1 \<Longrightarrow>
     kth_loop t u k [i..<LOGN t + 1] =
       Inr ((up_parent P n0 ^^ nat (take_bit (LOGN t + 1) k - take_bit i k)) u)"
proof (induction "LOGN t + 1 - i" arbitrary: i u)
  case 0
  then show ?case by simp
next
  case (Suc d)
  let ?L = "LOGN t + 1"
  from Suc.hyps(2) have i: "i \<le> LOGN t" "i < ?L" "Suc i \<le> ?L" by simp_all
  from Suc.hyps(2) have d: "d = ?L - Suc i" by simp
  from i have list: "[i..<?L] = i # [Suc i..<?L]" by (simp add: upt_conv_Cons)
  from take_bit_tightened_less_eq_int [OF i(3), of k]
  have mono: "take_bit (Suc i) k \<le> take_bit ?L k" .
  show ?case
  proof (cases "bit k i")
    case False
    then have "take_bit (Suc i) k = take_bit i k" by (simp add: take_bit_Suc_from_most)
    with Suc.hyps(1) [OF d Suc.prems(1,2) i(3)] False list show ?thesis
      by (simp add: bit_iff_and_push_bit_not_eq_0)
  next
    case True
    then have tb: "take_bit (Suc i) k = 2 ^ i + take_bit i k"
      by (simp add: take_bit_Suc_from_most)
    let ?a = "(up_parent P n0 ^^ (2 ^ i)) u"
    from Suc.prems n have ur: "0 \<le> u" "u \<le> self_n t" by simp_all
    from up_get_nat [OF sz ur i(1)] lifted_cell [OF l ur i(2,1)] n
    have get: "up_get t u (int i) = Inr ?a" by simp
    from up_parent_funpow_range [OF R Suc.prems(1,2), of "2 ^ i"]
    have a: "0 \<le> ?a" "?a \<le> n0" by simp_all
    have pw: "(2::int) ^ i = int (2 ^ i)" by simp
    from mono have "int (2 ^ i) + take_bit i k \<le> take_bit ?L k"
      by (simp only: tb pw)
    then have "nat (take_bit ?L k - take_bit i k) =
        nat (take_bit ?L k - (int (2 ^ i) + take_bit i k)) + 2 ^ i"
      by (rule nat_diff_split_off)
    then have exp: "nat (take_bit ?L k - take_bit i k) =
        nat (take_bit ?L k - take_bit (Suc i) k) + 2 ^ i"
      by (simp only: tb pw)
    have split: "(up_parent P n0 ^^ nat (take_bit ?L k - take_bit i k)) u =
        (up_parent P n0 ^^ nat (take_bit ?L k - take_bit (Suc i) k)) ?a"
      by (simp only: exp funpow_add o_apply)
    show ?thesis
    proof (cases "?a = 0")
      case z: True
      with split have "(up_parent P n0 ^^ nat (take_bit ?L k - take_bit i k)) u = 0"
        by (simp add: up_parent_zero)
      with True list get z show ?thesis
        by (simp add: bit_iff_and_push_bit_not_eq_0)
    next
      case nz: False
      from Suc.hyps(1) [OF d a i(3)] split True list get nz show ?thesis
        by (simp add: bit_iff_and_push_bit_not_eq_0)
    qed
  qed
qed

lemma get_kth_ancestor_lifted:
  assumes "rooted n0 es P D" "sized t" "self_n t = n0" "lifted P t (LOGN t + 1)"
    "0 \<le> u" "u \<le> n0" "0 \<le> k" "k < 2 ^ (LOGN t + 1)"
  shows "get_kth_ancestor t u k = Inr ((up_parent P n0 ^^ nat k) u)"
proof -
  from assms(7,8) have "take_bit (LOGN t + 1) k = k" by (rule take_bit_int_eq_self)
  with kth_loop_lifted [OF assms(1,2,3,4,5,6), of 0 k] show ?thesis
    by (simp add: get_kth_ancestor_def)
qed

lemma bit_length_nat_bound: "m < 2 ^ bit_length_nat m"
proof (induction m rule: bit_length_nat.induct)
  case (1 m)
  show ?case
  proof (cases "m = 0")
    case True
    then show ?thesis by (simp add: bit_length_nat.simps)
  next
    case False
    from "1.IH" [OF False] have "m div 2 < 2 ^ bit_length_nat (m div 2)" .
    then have "m < 2 * 2 ^ bit_length_nat (m div 2)" by linarith
    with False show ?thesis by (subst bit_length_nat.simps) simp
  qed
qed

lemma bit_length_bound: "0 \<le> n0 \<Longrightarrow> n0 < 2 ^ max 1 (bit_length n0)"
proof -
  assume n0: "0 \<le> n0"
  have "nat n0 < 2 ^ bit_length_nat (nat n0)" by (rule bit_length_nat_bound)
  also have "\<dots> \<le> 2 ^ max 1 (bit_length_nat (nat n0))" by (rule power_increasing) simp_all
  finally have "int (nat n0) < int (2 ^ max 1 (bit_length_nat (nat n0)))"
    by (simp only: of_nat_less_iff)
  with n0 show ?thesis by (simp add: bit_length_def)
qed

lemma ancestor_chain:
  assumes R: "rooted n0 es P D" and x: "x \<in> {1..n0}"
  shows "j \<le> D x \<Longrightarrow>
     (up_parent P n0 ^^ j) x \<in> {1..n0} \<and> D ((up_parent P n0 ^^ j) x) = D x - j"
proof (induction j)
  case 0
  from x show ?case by simp
next
  case (Suc j)
  let ?y = "(up_parent P n0 ^^ j) x"
  from Suc have y: "?y \<in> {1..n0}" "D ?y = D x - j" by simp_all
  from R have "D 1 = 0" by (simp add: rooted_def)
  with y(2) Suc.prems have "?y \<noteq> 1" by auto
  with y(1) have y2: "?y \<in> {2..n0}" by simp
  with R have p: "P ?y \<in> {1..n0}" "D ?y = Suc (D (P ?y))" by (simp_all add: rooted_def)
  from y(1) have "up_parent P n0 ?y = P ?y" by (simp add: up_parent_def)
  with p y(2) show ?case by simp
qed

lemma ancestor_root:
  assumes R: "rooted n0 es P D" and x: "x \<in> {1..n0}"
  shows "(up_parent P n0 ^^ D x) x = 1"
proof (rule ccontr)
  let ?y = "(up_parent P n0 ^^ D x) x"
  assume "?y \<noteq> 1"
  from ancestor_chain [OF R x, of "D x"] have y: "?y \<in> {1..n0}" "D ?y = 0" by simp_all
  with \<open>?y \<noteq> 1\<close> have "?y \<in> {2..n0}" by simp
  with R have "D ?y = Suc (D (P ?y))" by (simp add: rooted_def)
  with y(2) show False by simp
qed

lemma depth_bound:
  assumes R: "rooted n0 es P D" and x: "x \<in> {1..n0}"
  shows "int (D x) < n0"
proof -
  let ?f = "\<lambda>j. (up_parent P n0 ^^ j) x"
  have "inj_on ?f {0..D x}"
  proof (rule inj_onI)
    fix i j assume i: "i \<in> {0..D x}" and j: "j \<in> {0..D x}" and eq: "?f i = ?f j"
    from ancestor_chain [OF R x, of i] i have "D (?f i) = D x - i" by simp
    moreover from ancestor_chain [OF R x, of j] j have "D (?f j) = D x - j" by simp
    ultimately have "D x - i = D x - j" using eq by simp
    with i j show "i = j" by simp
  qed
  moreover have "?f ` {0..D x} \<subseteq> {1..n0}"
    using ancestor_chain [OF R x] by auto
  ultimately have "card {0..D x} \<le> card {1..n0}"
    by (rule card_inj_on_le) simp
  then show ?thesis by simp
qed

lemma build_table:
  "up (build n0 es) = replicate (nat (n0 + 1)) (replicate (max 1 (bit_length n0) + 1) 0)"
  by (simp add: build_def add_edges_fields) (simp add: Tree_init_def)

lemma preprocess_rooted:
  assumes R: "rooted n0 es P D" and run: "preprocess fuel (build n0 es) = Inr t"
  shows "sized t \<and> self_n t = n0 \<and> LOGN t = max 1 (bit_length n0) \<and> preprocessed t \<and>
         (\<forall>x \<in> {1..n0}. matches P D t x) \<and> lifted P t (LOGN t + 1)"
proof -
  let ?b = "build n0 es"
  from R have n0: "1 \<le> n0" by (simp add: rooted_def)
  from run obtain t1 t2 t3 where t1: "dfs fuel ?b 1 0 = Inr t1"
    and t2: "build_lifting t1 = Inr t2"
    and t3: "compute_farthest fuel t2 1 0 = Inr t3"
    and t: "t = t3\<lparr>preprocessed := True\<rparr>"
    by (auto simp: preprocess_def bind_Inr)
  from dfs_root [OF R t1] have s1: "dfs_step n0 P D ?b t1"
    and m1: "\<forall>x \<in> {1..n0}. matches P D t1 x" by simp_all
  from s1 have f1: "dfs_frame ?b t1" "length (depth t1) = length (depth ?b)"
    "length (parent t1) = length (parent ?b)"
    by (simp_all add: dfs_step_def)
  from f1 sized_build [of n0 es] have sz1: "sized t1"
    by (simp add: sized_def dfs_frame_def)
  from f1(1) build_fields [of n0 es] have n1: "self_n t1 = n0"
    and l1: "LOGN t1 = max 1 (bit_length n0)"
    by (simp_all add: dfs_frame_def)
  from f1(1) have "up t1 = up ?b" by (simp add: dfs_frame_def)
  moreover let ?row = "replicate (max 1 (bit_length n0) + 1) (0::int)"
  from n0 have "0 < nat (n0 + 1)" by simp
  then have "replicate (nat (n0 + 1)) ?row ! 0 = ?row" by (rule nth_replicate)
  ultimately have row0: "up t1 ! 0 = ?row" by (simp only: build_table)
  have zero: "\<forall>i \<le> LOGN t1. up t1 ! 0 ! i = 0"
  proof (intro allI impI)
    fix i assume "i \<le> LOGN t1"
    with l1 have "i < max 1 (bit_length n0) + 1" by simp
    then have "?row ! i = 0" by (rule nth_replicate)
    then show "up t1 ! 0 ! i = 0" by (simp only: row0)
  qed
  from m1 have par: "\<forall>x \<in> {1..n0}. parent t1 ! nat x = P x" by (simp add: matches_def)
  from build_lifting_lifted [OF R sz1 n1 par zero] t2
  have sz2: "sized t2" and f2: "lift_frame t1 t2" and lf2: "lifted P t2 (LOGN t1 + 1)"
    by simp_all
  from compute_farthest_frame(1) [OF t3] have f3: "farthest_frame t2 t3" .
  from sz2 f3 have "sized t3" by (simp add: sized_def farthest_frame_def)
  then have "sized t" by (simp add: t sized_def)
  moreover from n1 f2 f3 have "self_n t = n0"
    by (simp add: t lift_frame_def farthest_frame_def)
  moreover from l1 f2 f3 have lt: "LOGN t = max 1 (bit_length n0)"
    by (simp add: t lift_frame_def farthest_frame_def)
  moreover have "preprocessed t" by (simp add: t)
  moreover from m1 f2 f3 have "\<forall>x \<in> {1..n0}. matches P D t x"
    by (simp add: t matches_def lift_frame_def farthest_frame_def)
  moreover from lf2 f2 f3 l1 have "lifted P t (LOGN t + 1)"
    by (simp add: t lifted_def lift_frame_def farthest_frame_def)
  ultimately show ?thesis by simp
qed

lemma kth_zero: "kth_loop t u 0 js = Inr u"
  by (induction js) simp_all

lemma farthest_step_refl: "farthest_step n0 t t"
  by (simp add: farthest_step_def farthest_frame_def)

lemma farthest_step_trans:
  "farthest_step n0 t t1 \<Longrightarrow> farthest_step n0 t1 t2 \<Longrightarrow> farthest_step n0 t t2"
  by (simp add: farthest_step_def farthest_frame_def)

lemma farthest_step_pre: "farthest_step n0 t t' \<Longrightarrow> farthest_pre n0 es t \<Longrightarrow> farthest_pre n0 es t'"
  by (simp add: farthest_step_def farthest_frame_def farthest_pre_def)

lemma farthest_step_covers:
  "farthest_step n0 t t' \<Longrightarrow> x \<in> {1..n0} \<Longrightarrow> covers t x \<Longrightarrow> covers t' x"
  by (simp add: farthest_step_def)

lemma farthest_step_write:
  assumes "farthest_pre n0 es t" "u \<in> {1..n0}" "depth t ! nat u \<le> m"
  shows "farthest_step n0 t (t\<lparr>max_depth_in_subtree := (max_depth_in_subtree t)[nat u := m],
           farthest_node := (farthest_node t)[nat u := w]\<rparr>) \<and>
         covers (t\<lparr>max_depth_in_subtree := (max_depth_in_subtree t)[nat u := m],
           farthest_node := (farthest_node t)[nat u := w]\<rparr>) u"
proof -
  let ?t' = "t\<lparr>max_depth_in_subtree := (max_depth_in_subtree t)[nat u := m],
           farthest_node := (farthest_node t)[nat u := w]\<rparr>"
  from assms(1,2) have ur: "0 \<le> u" "u < int (length (max_depth_in_subtree t))"
    by (simp_all add: farthest_pre_def)
  have cell: "max_depth_in_subtree ?t' ! nat x =
      (if x = u then m else max_depth_in_subtree t ! nat x)" if "0 \<le> x" for x
    using nth_update_cell [OF that ur] by simp
  have "covers ?t' x" if "x \<in> {1..n0}" "covers t x" for x
    using that assms(3) cell [of x] by (simp add: covers_def)
  then have "farthest_step n0 t ?t'"
    by (simp add: farthest_step_def farthest_frame_def)
  moreover from assms(2,3) cell [of u] have "covers ?t' u" by (simp add: covers_def)
  ultimately show ?thesis by simp
qed

lemma compute_farthest_rooted:
  assumes R: "rooted n0 es P D"
  shows "compute_farthest f t u p = Inr t' \<Longrightarrow> p = P u \<Longrightarrow> u \<in> {1..n0} \<Longrightarrow>
           farthest_pre n0 es t \<Longrightarrow>
         farthest_step n0 t t' \<and> (\<forall>x. (u, x) \<in> (tree_links P n0)\<^sup>* \<longrightarrow> covers t' x)"
    and "farthest_children f t u p vs = Inr t' \<Longrightarrow> p = P u \<Longrightarrow> u \<in> {1..n0} \<Longrightarrow>
           farthest_pre n0 es t \<Longrightarrow> covers t u \<Longrightarrow> set vs \<subseteq> {v. (u, v) \<in> adjacent es} \<Longrightarrow>
         farthest_step n0 t t' \<and>
         (\<forall>c \<in> set vs. c \<noteq> p \<longrightarrow> (\<forall>x. (c, x) \<in> (tree_links P n0)\<^sup>* \<longrightarrow> covers t' x))"
proof (induction f t u p and f t u p vs arbitrary: t' and t' rule: compute_farthest_farthest_children.induct)
  case (1 t u p)
  then show ?case by simp
next
  case (2 f t u p)
  from "2.prems"(3,4) have ur: "0 \<le> u" "u < int (length (depth t))"
    "u < int (length (max_depth_in_subtree t))" "u < int (length (farthest_node t))"
    by (simp_all add: farthest_pre_def)
  let ?du = "depth t ! nat u"
  let ?t1 = "t\<lparr>max_depth_in_subtree := (max_depth_in_subtree t)[nat u := ?du],
           farthest_node := (farthest_node t)[nat u := u]\<rparr>"
  have du: "py_get (depth t) u = Inr ?du" by (rule py_get_nat [OF ur(1,2)])
  have ms: "py_set (max_depth_in_subtree t) u ?du = Inr ((max_depth_in_subtree t)[nat u := ?du])"
    by (rule py_set_nat [OF ur(1,3)])
  have fs: "py_set (farthest_node t) u u = Inr ((farthest_node t)[nat u := u])"
    by (rule py_set_nat [OF ur(1,4)])
  from "2.prems"(1) du ms fs
  have run: "farthest_children f ?t1 u p (edges t u) = Inr t'" by simp
  from farthest_step_write [OF "2.prems"(4,3), of ?du u]
  have s1: "farthest_step n0 t ?t1" and c1: "covers ?t1 u" by simp_all
  from farthest_step_pre [OF s1 "2.prems"(4)] have pre1: "farthest_pre n0 es ?t1" .
  from "2.prems"(4) have sub: "set (edges t u) \<subseteq> {v. (u, v) \<in> adjacent es}"
    by (simp add: farthest_pre_def)
  from "2.IH" [OF du ms fs run "2.prems"(2,3) pre1 c1 sub]
  have s2: "farthest_step n0 ?t1 t'"
    and post: "\<And>c x. c \<in> set (edges t u) \<Longrightarrow> c \<noteq> p \<Longrightarrow> (c, x) \<in> (tree_links P n0)\<^sup>* \<Longrightarrow>
        covers t' x"
    by blast+
  from farthest_step_covers [OF s2 "2.prems"(3) c1] have cu: "covers t' u" .
  have "covers t' x" if x: "(u, x) \<in> (tree_links P n0)\<^sup>*" for x
  proof (cases "x = u")
    case True
    with cu show ?thesis by simp
  next
    case False
    with x obtain c where c: "(u, c) \<in> tree_links P n0" "(c, x) \<in> (tree_links P n0)\<^sup>*"
      by (auto elim: converse_rtranclE)
    from rooted_link [OF R c(1) "2.prems"(3)] "2.prems"(2,4)
    have "c \<in> set (edges t u)" "c \<noteq> p" by (simp_all add: farthest_pre_def)
    from post [OF this c(2)] show ?thesis .
  qed
  with farthest_step_trans [OF s1 s2] show ?case by blast
next
  case (3 f t u p)
  then show ?case by (simp add: farthest_step_refl)
next
  case (4 f t u p v vs)
  from "4.prems"(6) have sub: "set vs \<subseteq> {v. (u, v) \<in> adjacent es}" by simp
  show ?case
  proof (cases "v = p")
    case True
    with "4.prems"(1) have rest: "farthest_children f t u p vs = Inr t'" by simp
    from "4.IH"(4) [OF _ rest "4.prems"(2,3,4,5) sub] True show ?thesis by simp
  next
    case False
    from "4.prems"(6) have "(u, v) \<in> adjacent es" by simp
    from rooted_child [OF R "4.prems"(3) this] False "4.prems"(2)
    have v: "v \<in> {2..n0}" "P v = u" by simp_all
    then have v1: "v \<in> {1..n0}" by simp
    from "4.prems"(1) False obtain t1 where t1: "compute_farthest f t v u = Inr t1"
      by (auto simp: bind_Inr)
    from "4.IH"(1) [OF False t1 v(2) [symmetric] v1 "4.prems"(4)]
    have s1: "farthest_step n0 t t1"
      and post1: "\<And>x. (v, x) \<in> (tree_links P n0)\<^sup>* \<Longrightarrow> covers t1 x"
      by blast+
    from farthest_step_pre [OF s1 "4.prems"(4)] have pre1: "farthest_pre n0 es t1" .
    from farthest_step_covers [OF s1 "4.prems"(3,5)] have cu1: "covers t1 u" .
    from pre1 v1 "4.prems"(3) have r: "0 \<le> v" "v < int (length (max_depth_in_subtree t1))"
      "0 \<le> u" "u < int (length (max_depth_in_subtree t1))"
      "v < int (length (farthest_node t1))" "u < int (length (farthest_node t1))"
      by (simp_all add: farthest_pre_def)
    let ?mv = "max_depth_in_subtree t1 ! nat v"
    let ?mu = "max_depth_in_subtree t1 ! nat u"
    have mv: "py_get (max_depth_in_subtree t1) v = Inr ?mv" by (rule py_get_nat [OF r(1,2)])
    have mu: "py_get (max_depth_in_subtree t1) u = Inr ?mu" by (rule py_get_nat [OF r(3,4)])
    have "\<exists>t2. farthest_children f t2 u p vs = Inr t' \<and> farthest_step n0 t1 t2 \<and> covers t2 u \<and>
        (farthest_step n0 t2 t' \<and>
         (\<forall>c \<in> set vs. c \<noteq> p \<longrightarrow> (\<forall>x. (c, x) \<in> (tree_links P n0)\<^sup>* \<longrightarrow> covers t' x)))"
    proof (cases "?mv > ?mu")
      case True
      let ?fv = "farthest_node t1 ! nat v"
      let ?t2 = "t1\<lparr>max_depth_in_subtree := (max_depth_in_subtree t1)[nat u := ?mv],
           farthest_node := (farthest_node t1)[nat u := ?fv]\<rparr>"
      have ms: "py_set (max_depth_in_subtree t1) u ?mv =
          Inr ((max_depth_in_subtree t1)[nat u := ?mv])"
        by (rule py_set_nat [OF r(3,4)])
      have fv: "py_get (farthest_node t1) v = Inr ?fv" by (rule py_get_nat [OF r(1,5)])
      have fs: "py_set (farthest_node t1) u ?fv = Inr ((farthest_node t1)[nat u := ?fv])"
        by (rule py_set_nat [OF r(3,6)])
      from "4.prems"(1) False t1 mv mu True ms fv fs
      have rest: "farthest_children f ?t2 u p vs = Inr t'" by simp
      from cu1 True have "depth t1 ! nat u \<le> ?mv" by (simp add: covers_def)
      from farthest_step_write [OF pre1 "4.prems"(3) this, of ?fv]
      have s2: "farthest_step n0 t1 ?t2" and c2: "covers ?t2 u" by simp_all
      from farthest_step_pre [OF s2 pre1] have pre2: "farthest_pre n0 es ?t2" .
      from "4.IH"(2) [OF False t1 mv mu True ms fv fs rest "4.prems"(2,3) pre2 c2 sub]
        rest s2 c2
      show ?thesis by blast
    next
      case nogain: False
      with "4.prems"(1) \<open>v \<noteq> p\<close> t1 mv mu
      have rest: "farthest_children f t1 u p vs = Inr t'" by simp
      from "4.IH"(3) [OF \<open>v \<noteq> p\<close> t1 mv mu nogain rest "4.prems"(2,3) pre1 cu1 sub]
        rest cu1 farthest_step_refl [of n0 t1]
      show ?thesis by blast
    qed
    then obtain t2 where s2: "farthest_step n0 t1 t2" and s3: "farthest_step n0 t2 t'"
      and post2: "\<And>c x. c \<in> set vs \<Longrightarrow> c \<noteq> p \<Longrightarrow> (c, x) \<in> (tree_links P n0)\<^sup>* \<Longrightarrow>
        covers t' x"
      by blast
    from farthest_step_trans [OF s2 s3] have s23: "farthest_step n0 t1 t'" .
    have "covers t' x" if c: "c \<in> set (v # vs)" "c \<noteq> p" "(c, x) \<in> (tree_links P n0)\<^sup>*" for c x
    proof (cases "c = v")
      case True
      with c(3) post1 have m: "covers t1 x" by simp
      from tree_links_range [OF c(3)] True v1 have "x \<in> {1..n0}" by simp
      from farthest_step_covers [OF s23 this m] show ?thesis .
    next
      case False
      with c(1) have "c \<in> set vs" by simp
      from post2 [OF this c(2,3)] show ?thesis .
    qed
    with farthest_step_trans [OF s1 s23] show ?thesis by blast
  qed
qed

lemma preprocess_covers:
  assumes R: "rooted n0 es P D" and run: "preprocess fuel (build n0 es) = Inr t"
  shows "\<forall>x \<in> {1..n0}. covers t x"
proof -
  let ?b = "build n0 es"
  from R have n0: "1 \<le> n0" and p1: "0 = P 1" by (simp_all add: rooted_def)
  from run obtain t1 t2 t3 where t1: "dfs fuel ?b 1 0 = Inr t1"
    and t2: "build_lifting t1 = Inr t2"
    and t3: "compute_farthest fuel t2 1 0 = Inr t3"
    and t: "t = t3\<lparr>preprocessed := True\<rparr>"
    by (auto simp: preprocess_def bind_Inr)
  from dfs_root [OF R t1] have s1: "dfs_step n0 P D ?b t1" by simp
  from dfs_step_pre [OF s1 dfs_pre_build] have pre1: "dfs_pre n0 es t1" .
  from s1 have f1: "dfs_frame ?b t1" by (simp add: dfs_step_def)
  from s1 sized_build [of n0 es] have sz1: "sized t1"
    by (simp add: sized_def dfs_frame_def dfs_step_def)
  have "in_range (nat (self_n ?b + 1)) 0"
    using n0 build_fields [of n0 es] by (simp add: in_range_def)
  from dfs_safe(1) [OF t1 sized_build linked_build this] have lk1: "linked t1" by simp
  from build_lifting_safe [OF t2 sz1 lk1] have sz2: "sized t2" and f2: "lift_frame t1 t2"
    by simp_all
  from pre1 sz2 f2 have pre2: "farthest_pre n0 es t2"
    by (simp add: farthest_pre_def dfs_pre_def sized_def lift_frame_def)
  from n0 have one: "1 \<in> {1..n0}" by simp
  from compute_farthest_rooted(1) [OF R t3 p1 one pre2] all_linked [OF R]
  have "\<forall>x \<in> {1..n0}. covers t3 x" by blast
  then show ?thesis by (simp add: t covers_def)
qed

lemma climb_zero: "climb_loop t u 0 ks = Inr (u, 0)"
  by (induction ks) simp_all

lemma path_valid: "valid_tree 3 [(1, 2), (2, 3)]"
proof -
  let ?R = "adjacent [(1, 2), (2, 3)]"
  have e: "(1, 2) \<in> ?R" "(2, 3) \<in> ?R" by (simp_all add: adjacent_def)
  have "(1, x) \<in> ?R\<^sup>*" if "x \<in> {1..3}" for x
  proof -
    from that have "x = 1 \<or> x = 2 \<or> x = 3" by auto
    with e show ?thesis by (auto intro: rtrancl_trans)
  qed
  then show ?thesis by (simp add: valid_tree_def)
qed

lemma path_runs: "\<not> isl (preprocess 1000 (build 3 [(1, 2), (2, 3)]))"
  by code_simp

section \<open>Nodes in range: preprocess raises no IndexError\<close>

lemma py_set_total: "in_range (length xs) i \<Longrightarrow> \<exists>ys. py_set xs i x = Inr ys"
  by (cases "py_index xs i") (auto simp: py_set_def py_index_None)

lemma node_in_range: "1 \<le> u \<Longrightarrow> u \<le> n0 \<Longrightarrow> in_range (nat (n0 + 1)) u"
  by (simp add: in_range_def)

lemma dfs_no_index_error:
  "sized t \<Longrightarrow> linked t \<Longrightarrow> \<forall>w. set (edges t w) \<subseteq> {1..self_n t} \<Longrightarrow> u \<in> {1..self_n t} \<Longrightarrow>
     in_range (nat (self_n t + 1)) p \<Longrightarrow> dfs f t u p \<noteq> Inl IndexError"
  "sized t \<Longrightarrow> linked t \<Longrightarrow> \<forall>w. set (edges t w) \<subseteq> {1..self_n t} \<Longrightarrow> u \<in> {1..self_n t} \<Longrightarrow>
     set vs \<subseteq> {1..self_n t} \<Longrightarrow> dfs_children f t u p vs \<noteq> Inl IndexError"
proof (induction f t u p and f t u p vs rule: dfs_dfs_children.induct)
  case (1 t u p)
  then show ?case by simp
next
  case (2 f t u p)
  from "2.prems"(4) have ur: "in_range (nat (self_n t + 1)) u" by (simp add: node_in_range)
  with "2.prems"(1) have "in_range (length (parent t)) u" by (simp add: sized_def)
  from py_set_total [OF this] obtain ps where ps: "py_set (parent t) u p = Inr ps" ..
  let ?t1 = "t\<lparr>parent := ps\<rparr>"
  from py_set_Inr [OF ps] "2.prems"(1,2,5) have a: "sized ?t1" "linked ?t1"
    by (auto simp: sized_def linked_def)
  from "2.prems"(3,4) have b: "\<forall>w. set (edges ?t1 w) \<subseteq> {1..self_n ?t1}" "u \<in> {1..self_n ?t1}"
    "set (edges t u) \<subseteq> {1..self_n ?t1}"
    by simp_all
  from "2.IH" [OF ps a b] ps show ?case by simp
next
  case (3 f t u p)
  then show ?case by simp
next
  case (4 f t u p v vs)
  from "4.prems"(5) have vs: "set vs \<subseteq> {1..self_n t}" and v: "v \<in> {1..self_n t}" by simp_all
  show ?case
  proof (cases "v = p")
    case True
    with "4.IH"(3) [OF _ "4.prems"(1,2,3,4) vs] show ?thesis by simp
  next
    case False
    from "4.prems"(4) have ur: "in_range (nat (self_n t + 1)) u" by (simp add: node_in_range)
    from v have vr: "in_range (nat (self_n t + 1)) v" by (simp add: node_in_range)
    from ur vr "4.prems"(1) have "in_range (length (depth t)) u" "in_range (length (depth t)) v"
      by (simp_all add: sized_def)
    then obtain du ds where du: "py_get (depth t) u = Inr du"
      and ds: "py_set (depth t) v (du + 1) = Inr ds"
      using py_get_total [of "depth t" u] py_set_total [of "depth t" v] by blast
    let ?t0 = "t\<lparr>depth := ds\<rparr>"
    from py_set_Inr [OF ds] "4.prems"(1,2) have a: "sized ?t0" "linked ?t0"
      by (auto simp: sized_def linked_def)
    from "4.prems"(3) v ur have b: "\<forall>w. set (edges ?t0 w) \<subseteq> {1..self_n ?t0}"
      "v \<in> {1..self_n ?t0}" "in_range (nat (self_n ?t0 + 1)) u"
      by simp_all
    from "4.IH"(1) [OF False du ds a b] have first: "dfs f ?t0 v u \<noteq> Inl IndexError" .
    show ?thesis
    proof (cases "dfs f ?t0 v u")
      case (Inl e)
      with first False du ds show ?thesis by auto
    next
      case (Inr t1)
      from dfs_safe(1) [OF Inr a b(3)] have c: "sized t1" "linked t1" "dfs_frame ?t0 t1"
        by simp_all
      from c(3) "4.prems"(3,4) vs have d: "\<forall>w. set (edges t1 w) \<subseteq> {1..self_n t1}"
        "u \<in> {1..self_n t1}" "set vs \<subseteq> {1..self_n t1}"
        by (simp_all add: dfs_frame_def)
      from "4.IH"(2) [OF False du ds Inr c(1,2) d] False du ds Inr show ?thesis by simp
    qed
  qed
qed

lemma up_set_total:
  assumes "sized t" "in_range (nat (self_n t + 1)) v" "k \<le> LOGN t"
  shows "\<exists>t'. up_set t v (int k) x = Inr t'"
proof -
  from assms(1,2) have v: "in_range (length (up t)) v" by (simp add: sized_def)
  from py_get_total [OF v] obtain row where row: "py_get (up t) v = Inr row" ..
  from py_get_Inr [OF row] assms(1) have "length row = LOGN t + 1" by (simp add: sized_def)
  with assms(3) have "in_range (length row) (int k)" by (simp add: in_range_def)
  from py_set_total [OF this] obtain row' where row': "py_set row (int k) x = Inr row'" ..
  from py_set_total [OF v] obtain ups where "py_set (up t) v row' = Inr ups" ..
  with row row' show ?thesis by (simp add: up_set_def)
qed

lemma lift_base_total:
  "sized t \<Longrightarrow> linked t \<Longrightarrow> \<forall>v \<in> set vs. in_range (nat (self_n t + 1)) v \<Longrightarrow>
     \<exists>t'. lift_base t vs = Inr t'"
proof (induction vs arbitrary: t)
  case Nil
  then show ?case by simp
next
  case (Cons v vs)
  from Cons.prems have vr: "in_range (nat (self_n t + 1)) v" by simp
  with Cons.prems(1) have "in_range (length (parent t)) v" by (simp add: sized_def)
  from py_get_total [OF this] obtain pv where pv: "py_get (parent t) v = Inr pv" ..
  from up_set_total [OF Cons.prems(1) vr, of 0 pv] obtain t1
    where t1: "up_set t v 0 pv = Inr t1" by auto
  from py_get_Inr [OF pv] Cons.prems(2) have "in_range (nat (self_n t + 1)) pv"
    by (simp add: linked_def)
  from up_set_safe [OF t1 Cons.prems(1,2) this]
  have a: "sized t1" "linked t1" "lift_frame t t1" by simp_all
  from a(3) Cons.prems(3) have "\<forall>v \<in> set vs. in_range (nat (self_n t1 + 1)) v"
    by (simp add: lift_frame_def)
  from Cons.IH [OF a(1,2) this] pv t1 show ?case by simp
qed

lemma lift_row_total:
  "sized t \<Longrightarrow> linked t \<Longrightarrow> \<forall>v \<in> set vs. in_range (nat (self_n t + 1)) v \<Longrightarrow>
     Suc j \<le> LOGN t \<Longrightarrow> \<exists>t'. lift_row t (int (Suc j)) vs = Inr t'"
proof (induction vs arbitrary: t)
  case Nil
  then show ?case by simp
next
  case (Cons v vs)
  from Cons.prems have vr: "in_range (nat (self_n t + 1)) v" and j: "j \<le> LOGN t" by simp_all
  from up_get_total [OF Cons.prems(1) vr j] obtain a where a: "up_get t v (int j) = Inr a" ..
  from up_get_linked [OF a Cons.prems(2)] have ar: "in_range (nat (self_n t + 1)) a" .
  from up_get_total [OF Cons.prems(1) ar j] obtain b where b: "up_get t a (int j) = Inr b" ..
  from up_set_total [OF Cons.prems(1) vr Cons.prems(4), of b] obtain t1
    where t1: "up_set t v (int (Suc j)) b = Inr t1" by auto
  from up_set_safe [OF t1 Cons.prems(1,2) up_get_linked [OF b Cons.prems(2)]]
  have c: "sized t1" "linked t1" "lift_frame t t1" by simp_all
  from c(3) Cons.prems(3,4) have "\<forall>v \<in> set vs. in_range (nat (self_n t1 + 1)) v"
    "Suc j \<le> LOGN t1"
    by (simp_all add: lift_frame_def)
  from Cons.IH [OF c(1,2) this] obtain t' where "lift_row t1 (int (Suc j)) vs = Inr t'" ..
  moreover from a have "up_get t v (int (Suc j) - 1) = Inr a" by simp
  moreover from b have "up_get t a (int (Suc j) - 1) = Inr b" by simp
  ultimately show ?case using t1 by (simp del: of_nat_Suc)
qed

lemma lift_levels_total:
  "sized t \<Longrightarrow> linked t \<Longrightarrow> \<forall>k \<in> set ks. 1 \<le> k \<and> k \<le> int (LOGN t) \<Longrightarrow>
     \<exists>t'. lift_levels t ks = Inr t'"
proof (induction ks arbitrary: t)
  case Nil
  then show ?case by simp
next
  case (Cons k ks)
  from Cons.prems(3) have k: "1 \<le> k" "k \<le> int (LOGN t)" by simp_all
  then obtain j where j: "k = int (Suc j)" "Suc j \<le> LOGN t"
    by (cases "nat k") (auto simp: nat_eq_iff)
  have "\<forall>v \<in> set [1..self_n t]. in_range (nat (self_n t + 1)) v"
    by (simp add: node_in_range)
  from lift_row_total [OF Cons.prems(1,2) this j(2)] j(1) obtain t1
    where t1: "lift_row t k [1..self_n t] = Inr t1" by auto
  from lift_row_safe [OF t1 Cons.prems(1,2)]
  have c: "sized t1" "linked t1" "lift_frame t t1" by simp_all
  from c(3) Cons.prems(3) have "\<forall>k \<in> set ks. 1 \<le> k \<and> k \<le> int (LOGN t1)"
    by (simp add: lift_frame_def)
  from Cons.IH [OF c(1,2) this] t1 show ?case by simp
qed

lemma build_lifting_total:
  assumes "sized t" "linked t"
  shows "\<exists>t'. build_lifting t = Inr t'"
proof -
  have "\<forall>v \<in> set [1..self_n t]. in_range (nat (self_n t + 1)) v"
    by (simp add: node_in_range)
  from lift_base_total [OF assms this] obtain t1
    where t1: "lift_base t [1..self_n t] = Inr t1" ..
  from lift_base_safe [OF t1 assms] have c: "sized t1" "linked t1" by simp_all
  have "\<forall>k \<in> set [1..int (LOGN t1)]. 1 \<le> k \<and> k \<le> int (LOGN t1)" by simp
  from lift_levels_total [OF c this] t1 show ?thesis by (simp add: build_lifting_def)
qed

lemma compute_farthest_no_index_error:
  "sized t \<Longrightarrow> \<forall>w. set (edges t w) \<subseteq> {1..self_n t} \<Longrightarrow> u \<in> {1..self_n t} \<Longrightarrow>
     compute_farthest f t u p \<noteq> Inl IndexError"
  "sized t \<Longrightarrow> \<forall>w. set (edges t w) \<subseteq> {1..self_n t} \<Longrightarrow> u \<in> {1..self_n t} \<Longrightarrow>
     set vs \<subseteq> {1..self_n t} \<Longrightarrow> farthest_children f t u p vs \<noteq> Inl IndexError"
proof (induction f t u p and f t u p vs rule: compute_farthest_farthest_children.induct)
  case (1 t u p)
  then show ?case by simp
next
  case (2 f t u p)
  from "2.prems"(3) have ur: "in_range (nat (self_n t + 1)) u" by (simp add: node_in_range)
  with "2.prems"(1) have r: "in_range (length (depth t)) u"
    "in_range (length (max_depth_in_subtree t)) u" "in_range (length (farthest_node t)) u"
    by (simp_all add: sized_def)
  from py_get_total [OF r(1)] obtain du where du: "py_get (depth t) u = Inr du" ..
  from py_set_total [OF r(2)] obtain ms
    where ms: "py_set (max_depth_in_subtree t) u du = Inr ms" ..
  from py_set_total [OF r(3)] obtain fs where fs: "py_set (farthest_node t) u u = Inr fs" ..
  let ?t1 = "t\<lparr>max_depth_in_subtree := ms, farthest_node := fs\<rparr>"
  from py_set_Inr [OF ms] py_set_Inr [OF fs] "2.prems"(1) have a: "sized ?t1"
    by (simp add: sized_def)
  from "2.prems"(2,3) have b: "\<forall>w. set (edges ?t1 w) \<subseteq> {1..self_n ?t1}" "u \<in> {1..self_n ?t1}"
    "set (edges t u) \<subseteq> {1..self_n ?t1}"
    by simp_all
  from "2.IH" [OF du ms fs a b] du ms fs show ?case by simp
next
  case (3 f t u p)
  then show ?case by simp
next
  case (4 f t u p v vs)
  from "4.prems"(4) have vs: "set vs \<subseteq> {1..self_n t}" and v: "v \<in> {1..self_n t}" by simp_all
  show ?case
  proof (cases "v = p")
    case True
    with "4.IH"(4) [OF _ "4.prems"(1,2,3) vs] show ?thesis by simp
  next
    case False
    from "4.IH"(1) [OF False "4.prems"(1,2) v]
    have first: "compute_farthest f t v u \<noteq> Inl IndexError" .
    show ?thesis
    proof (cases "compute_farthest f t v u")
      case (Inl e)
      with first False show ?thesis by auto
    next
      case t1: (Inr t1)
      from compute_farthest_frame(1) [OF t1] have fr: "farthest_frame t t1" .
      with "4.prems"(1) have sz1: "sized t1" by (simp add: sized_def farthest_frame_def)
      from fr "4.prems"(2,3) vs v have d: "\<forall>w. set (edges t1 w) \<subseteq> {1..self_n t1}"
        "u \<in> {1..self_n t1}" "set vs \<subseteq> {1..self_n t1}" "v \<in> {1..self_n t1}"
        by (simp_all add: farthest_frame_def)
      from d(2,4) sz1 have r: "in_range (length (max_depth_in_subtree t1)) v"
        "in_range (length (max_depth_in_subtree t1)) u"
        "in_range (length (farthest_node t1)) v" "in_range (length (farthest_node t1)) u"
        by (simp_all add: sized_def node_in_range)
      from py_get_total [OF r(1)] obtain mv
        where mv: "py_get (max_depth_in_subtree t1) v = Inr mv" ..
      from py_get_total [OF r(2)] obtain mu
        where mu: "py_get (max_depth_in_subtree t1) u = Inr mu" ..
      show ?thesis
      proof (cases "mv > mu")
        case True
        from py_set_total [OF r(2)] obtain ms
          where ms: "py_set (max_depth_in_subtree t1) u mv = Inr ms" ..
        from py_get_total [OF r(3)] obtain fv where fv: "py_get (farthest_node t1) v = Inr fv" ..
        from py_set_total [OF r(4)] obtain fs
          where fs: "py_set (farthest_node t1) u fv = Inr fs" ..
        let ?t2 = "t1\<lparr>max_depth_in_subtree := ms, farthest_node := fs\<rparr>"
        from py_set_Inr [OF ms] py_set_Inr [OF fs] sz1 have sz2: "sized ?t2"
          by (simp add: sized_def)
        from d have d2: "\<forall>w. set (edges ?t2 w) \<subseteq> {1..self_n ?t2}"
          "u \<in> {1..self_n ?t2}" "set vs \<subseteq> {1..self_n ?t2}"
          by simp_all
        from "4.IH"(2) [OF False t1 mv mu True ms fv fs sz2 d2] False t1 mv mu True ms fv fs
        show ?thesis by simp
      next
        case nogain: False
        from "4.IH"(3) [OF \<open>v \<noteq> p\<close> t1 mv mu nogain sz1 d(1,2,3)] \<open>v \<noteq> p\<close> t1 mv mu nogain
        show ?thesis by simp
      qed
    qed
  qed
qed

lemma preprocess_no_index_error:
  assumes n0: "1 \<le> n0"
    and ends: "\<forall>(a, b) \<in> set es. 1 \<le> a \<and> a \<le> n0 \<and> 1 \<le> b \<and> b \<le> n0"
  shows "preprocess fuel (build n0 es) \<noteq> Inl IndexError"
proof -
  let ?b = "build n0 es"
  have n: "self_n ?b = n0" using build_fields [of n0 es] by simp
  from ends have adj: "\<forall>w. set (edges ?b w) \<subseteq> {1..self_n ?b}"
    by (auto simp: edges_build n adjacent_def)
  from n0 n have one: "1 \<in> {1..self_n ?b}" and z: "in_range (nat (self_n ?b + 1)) 0"
    by (simp_all add: in_range_def)
  from dfs_no_index_error(1) [OF sized_build linked_build adj one z]
  have first: "dfs fuel ?b 1 0 \<noteq> Inl IndexError" .
  show ?thesis
  proof (cases "dfs fuel ?b 1 0")
    case (Inl e)
    with first show ?thesis by (auto simp: preprocess_def)
  next
    case t1: (Inr t1)
    from dfs_safe(1) [OF t1 sized_build linked_build z]
    have a: "sized t1" "linked t1" "dfs_frame ?b t1" by simp_all
    from build_lifting_total [OF a(1,2)] obtain t2 where t2: "build_lifting t1 = Inr t2" ..
    from build_lifting_safe [OF t2 a(1,2)] have b: "sized t2" "lift_frame t1 t2" by simp_all
    from a(3) b(2) adj one have c: "\<forall>w. set (edges t2 w) \<subseteq> {1..self_n t2}" "1 \<in> {1..self_n t2}"
      by (simp_all add: dfs_frame_def lift_frame_def)
    from compute_farthest_no_index_error(1) [OF b(1) c]
    have "compute_farthest fuel t2 1 0 \<noteq> Inl IndexError" .
    with t1 t2 show ?thesis
      by (cases "compute_farthest fuel t2 1 0") (auto simp: preprocess_def)
  qed
qed

section \<open>The claims\<close>

text \<open>
  C1. For the star tree with root 1, \<open>n = 4\<close> and edges \<open>(1,2), (1,3), (1,4)\<close>, the
  farthest-reachable query is claimed to return 1 for \<open>(v = 1, stamina = 0)\<close> and 2 for
  \<open>(v = 2, stamina = 1)\<close>. The code returns 1 for both: for \<open>v = 2\<close> the only
  candidate is \<open>max_depth_in_subtree[1] - depth[2] + 1 = 1 - 1 + 1\<close>, although the leaf
  3 is at distance 2 from node 2 (one edge up, one edge down).
\<close>

theorem star_tree_answers:
  "main_case 1000 4 [(1, 2), (1, 3), (1, 4)] [(1, 0), (2, 1)] = Inr [1, 1]"
  by code_simp

text \<open>
  C2. On a valid tree that \<open>preprocess\<close> has completed, for every node \<open>v\<close> in
  \<open>[1, n]\<close>, \<open>get_farthest_distance(v, 0)\<close> returns
  \<open>max_depth_in_subtree[v] - depth[v]\<close>, and this value is not negative.
\<close>

theorem zero_stamina_is_baseline:
  assumes "valid_tree n0 es" "preprocess fuel (build n0 es) = Inr t" "1 \<le> v" "v \<le> n0"
  shows "\<exists>m d. py_get (max_depth_in_subtree t) v = Inr m \<and> py_get (depth t) v = Inr d \<and>
           get_farthest_distance t v 0 = Inr (m - d) \<and> 0 \<le> m - d"
proof -
  from valid_tree_rooted [OF assms(1)] obtain P D where R: "rooted n0 es P D" by blast
  from preprocess_safe [OF assms(2)]
  have a: "sized t" "preprocessed t" "self_n t = n0" by simp_all
  from assms(3,4) a(1,3) have r: "0 \<le> v" "v < int (length (max_depth_in_subtree t))"
    "v < int (length (depth t))"
    by (simp_all add: sized_def)
  let ?m = "max_depth_in_subtree t ! nat v"
  let ?d = "depth t ! nat v"
  have m: "py_get (max_depth_in_subtree t) v = Inr ?m" by (rule py_get_nat [OF r(1,2)])
  have d: "py_get (depth t) v = Inr ?d" by (rule py_get_nat [OF r(1,3)])
  from preprocess_covers [OF R assms(2)] assms(3,4) have "covers t v" by simp
  then have "0 \<le> ?m - ?d" by (simp add: covers_def)
  moreover have "get_farthest_distance t v 0 = Inr (?m - ?d)"
    by (simp add: get_farthest_distance_def a(2) m d climb_zero)
  ultimately show ?thesis using m d by blast
qed

theorem zero_stamina_is_baseline_witness:
  "valid_tree 3 [(1, 2), (2, 3)] \<and>
   (case preprocess 1000 (build 3 [(1, 2), (2, 3)]) of
      Inl e \<Rightarrow> False
    | Inr t \<Rightarrow> (\<exists>m d. py_get (max_depth_in_subtree t) 2 = Inr m \<and> py_get (depth t) 2 = Inr d \<and>
           get_farthest_distance t 2 0 = Inr (m - d) \<and> 0 \<le> m - d))"
proof (cases "preprocess 1000 (build 3 [(1, 2), (2, 3)])")
  case (Inl e)
  with path_runs show ?thesis by simp
next
  case (Inr t)
  from zero_stamina_is_baseline [OF path_valid Inr, of 2] Inr path_valid show ?thesis by simp
qed

text \<open>
  C3. On a tree that \<open>preprocess\<close> has completed, for a node \<open>v\<close> in \<open>[1, n]\<close> and
  \<open>0 \<le> s1 \<le> s2\<close>, both queries return and \<open>get_farthest_distance(v, s1) \<le>
  get_farthest_distance(v, s2)\<close>. Nothing is assumed of the edge list beyond
  \<open>preprocess\<close> having returned, so the valid trees are covered.
\<close>

theorem farthest_distance_monotone:
  assumes "preprocess fuel (build n0 es) = Inr t" "1 \<le> v" "v \<le> n0" "0 \<le> s1" "s1 \<le> s2"
  shows "\<exists>r1 r2. get_farthest_distance t v s1 = Inr r1 \<and>
           get_farthest_distance t v s2 = Inr r2 \<and> r1 \<le> r2"
proof -
  from preprocess_safe [OF assms(1)]
  have a: "sized t" "linked t" "preprocessed t" "self_n t = n0" by simp_all
  from assms(2,3) a(4) have v: "in_range (nat (self_n t + 1)) v"
    by (simp add: in_range_def)
  from get_farthest_distance_safe [OF a(1,2,3) v, of s1] obtain m dv r1
    where m: "py_get (max_depth_in_subtree t) v = Inr m" and dv: "py_get (depth t) v = Inr dv"
      and r1: "scan_loop t v (m - dv) [1..s1] = Inr r1" "get_farthest_distance t v s1 = Inr r1"
    by blast
  from get_farthest_distance_safe [OF a(1,2,3) v, of s2] m dv obtain r2
    where r2: "scan_loop t v (m - dv) [1..s2] = Inr r2" "get_farthest_distance t v s2 = Inr r2"
    by auto
  from r2(1) have "scan_loop t v (m - dv) ([1..s1] @ [s1 + 1..s2]) = Inr r2"
    by (simp only: upto_stamina_split [OF assms(4,5)])
  from scan_loop_append [OF a(1,2) v r1(1) this] r1(2) r2(2) show ?thesis by simp
qed

theorem farthest_distance_monotone_witness:
  "(case preprocess 1000 (build 4 [(1, 2), (1, 3), (1, 4)]) of
      Inl e \<Rightarrow> False
    | Inr t \<Rightarrow> (\<exists>r1 r2. get_farthest_distance t 2 0 = Inr r1 \<and>
           get_farthest_distance t 2 1 = Inr r2 \<and> r1 \<le> r2))"
proof (cases "preprocess 1000 (build 4 [(1, 2), (1, 3), (1, 4)])")
  case (Inl e)
  with star_runs show ?thesis by simp
next
  case (Inr t)
  from farthest_distance_monotone [OF Inr, of 2 0 1] Inr show ?thesis by simp
qed

text \<open>
  C4. For a non-negative \<open>k\<close>, a result of \<open>get_kth_ancestor(v, k)\<close> other than the
  sentinel 0 is claimed to lie at depth \<open>depth[v] - k\<close>. The loop looks at the bits
  \<open>0..LOGN\<close> of \<open>k\<close> only: on the single-node tree (\<open>LOGN = 1\<close>) the call with
  \<open>k = 4\<close> returns node 1 itself, whose depth is 0 and not \<open>0 - 4\<close>.
\<close>

theorem kth_ancestor_ignores_high_bits:
  "(case preprocess 1000 (build 1 []) of
      Inl e \<Rightarrow> False
    | Inr t \<Rightarrow> get_kth_ancestor t 1 4 = Inr 1 \<and> py_get (depth t) 1 = Inr 0)"
  by code_simp

text \<open>
  C5. Every query issued before \<open>preprocess()\<close> is claimed to fail. Only
  \<open>get_farthest_distance\<close> checks \<open>_preprocessed\<close>: on the star tree that was built
  but not preprocessed, \<open>get_kth_ancestor(2, 1)\<close> returns 0 and \<open>is_ancestor(1, 1)\<close>
  returns \<open>True\<close>, while \<open>get_farthest_distance(2, 1)\<close> raises \<open>RuntimeError\<close>.
\<close>

theorem unguarded_queries_before_preprocess:
  "get_kth_ancestor (build 4 [(1, 2), (1, 3), (1, 4)]) 2 1 = Inr 0 \<and>
   is_ancestor (build 4 [(1, 2), (1, 3), (1, 4)]) 1 1 = Inr True \<and>
   get_farthest_distance (build 4 [(1, 2), (1, 3), (1, 4)]) 2 1 = Inl RuntimeError"
  by code_simp

text \<open>
  C6. Malformed structural input is claimed to be detected when the tree is built.
  Neither \<open>Tree\<close>, \<open>add_edge\<close> nor \<open>preprocess\<close> checks the edge list: with
  \<open>n = 3\<close> and the single edge \<open>(1,2)\<close> (wrong edge count, node 3 disconnected) and
  with \<open>n = 1\<close> and the self-loop \<open>(1,1)\<close>, the test case runs to the end and
  answers its query.
\<close>

theorem malformed_input_accepted:
  "main_case 1000 3 [(1, 2)] [(3, 5)] = Inr [0] \<and>
   main_case 1000 1 [(1, 1)] [(1, 5)] = Inr [5]"
  by code_simp

text \<open>
  C6, as amended. Whatever the edge list, \<open>preprocess\<close> raises nothing but the
  \<open>IndexError\<close> or \<open>RecursionError\<close> of its own traversal. With \<open>n \<ge> 1\<close> and every
  endpoint in \<open>[1, n]\<close>, whatever the number of edges, the connectivity and the
  self-loops, its only failure is \<open>RecursionError\<close>. Once it returns, the tree is
  marked preprocessed and \<open>get_farthest_distance\<close> returns a value for every node
  id in \<open>[1, n]\<close> and every stamina.
\<close>

theorem preprocess_failures_and_results:
  "(preprocess fuel (build n0 es) = Inl e \<longrightarrow> e = IndexError \<or> e = RecursionError) \<and>
   (preprocess fuel (build n0 es) = Inl e \<longrightarrow> 1 \<le> n0 \<longrightarrow>
      (\<forall>(a, b) \<in> set es. 1 \<le> a \<and> a \<le> n0 \<and> 1 \<le> b \<and> b \<le> n0) \<longrightarrow> e = RecursionError) \<and>
   (preprocess fuel (build n0 es) = Inr t \<longrightarrow> 1 \<le> v \<longrightarrow> v \<le> n0 \<longrightarrow>
      preprocessed t \<and> (\<exists>r. get_farthest_distance t v s = Inr r))"
proof (intro conjI)
  show "preprocess fuel (build n0 es) = Inl e \<longrightarrow> e = IndexError \<or> e = RecursionError"
    by (rule impI) (rule preprocess_errors)
next
  show "preprocess fuel (build n0 es) = Inl e \<longrightarrow> 1 \<le> n0 \<longrightarrow>
      (\<forall>(a, b) \<in> set es. 1 \<le> a \<and> a \<le> n0 \<and> 1 \<le> b \<and> b \<le> n0) \<longrightarrow> e = RecursionError"
  proof (intro impI)
    assume fail: "preprocess fuel (build n0 es) = Inl e" and n0: "1 \<le> n0"
      and ends: "\<forall>(a, b) \<in> set es. 1 \<le> a \<and> a \<le> n0 \<and> 1 \<le> b \<and> b \<le> n0"
    from preprocess_no_index_error [OF n0 ends, of fuel] fail have "e \<noteq> IndexError" by auto
    with preprocess_errors [OF fail] show "e = RecursionError" by simp
  qed
next
  show "preprocess fuel (build n0 es) = Inr t \<longrightarrow> 1 \<le> v \<longrightarrow> v \<le> n0 \<longrightarrow>
      preprocessed t \<and> (\<exists>r. get_farthest_distance t v s = Inr r)"
  proof (intro impI)
    assume run: "preprocess fuel (build n0 es) = Inr t" and v: "1 \<le> v" "v \<le> n0"
    from preprocess_safe [OF run]
    have a: "sized t" "linked t" "preprocessed t" "self_n t = n0" by simp_all
    from v a(4) have "in_range (nat (self_n t + 1)) v" by (simp add: in_range_def)
    from get_farthest_distance_safe [OF a(1,2,3) this, of s] a(3)
    show "preprocessed t \<and> (\<exists>r. get_farthest_distance t v s = Inr r)" by blast
  qed
qed

theorem preprocess_failures_and_results_witness:
  "(preprocess 0 (build 3 [(1, 2)]) = Inl RecursionError \<and>
    (RecursionError = IndexError \<or> RecursionError = RecursionError) \<and>
    RecursionError = RecursionError) \<and>
   (case preprocess 1000 (build 3 [(1, 2)]) of
      Inl e \<Rightarrow> False
    | Inr t \<Rightarrow> preprocessed t \<and> (\<exists>r. get_farthest_distance t 3 5 = Inr r))"
proof -
  have fail: "preprocess 0 (build 3 [(1, 2)]) = Inl RecursionError"
    by (simp add: preprocess_def)
  have ends: "\<forall>(a, b) \<in> set [(1::int, 2::int)]. 1 \<le> a \<and> a \<le> 3 \<and> 1 \<le> b \<and> b \<le> 3"
    by simp
  have ok: "\<not> isl (preprocess 1000 (build 3 [(1, 2)]))" by code_simp
  then obtain t where t: "preprocess 1000 (build 3 [(1, 2)]) = Inr t"
    by (cases "preprocess 1000 (build 3 [(1, 2)])") simp_all
  from preprocess_failures_and_results [of 0 3 "[(1, 2)]" RecursionError] fail ends
  have "(RecursionError = IndexError \<or> RecursionError = RecursionError) \<and>
    RecursionError = RecursionError" by blast
  moreover from preprocess_failures_and_results [of 1000 3 "[(1, 2)]" _ t 3 5] t
  have "preprocessed t \<and> (\<exists>r. get_farthest_distance t 3 5 = Inr r)" by simp
  ultimately show ?thesis using fail t by simp
qed

text \<open>
  C7. A node id outside \<open>[1, n]\<close> is claimed to be rejected. The ids \<open>0\<close> and \<open>-1\<close>
  are accepted on the star tree: the lists have \<open>n + 1\<close> cells and Python reads a
  negative index from the end.
\<close>

theorem out_of_range_ids_accepted:
  "main_case 1000 4 [(1, 2), (1, 3), (1, 4)] [(0, 0), (- 1, 0)] = Inr [0, 0]"
  by code_simp

text \<open>
  C7, as amended. On a preprocessed tree, a node id \<open>v\<close> below \<open>- (n + 1)\<close> or above
  \<open>n\<close> makes \<open>get_farthest_distance\<close> and \<open>is_ancestor\<close> (in either argument) raise
  \<open>IndexError\<close>, and \<open>get_kth_ancestor\<close> too when one of the bits \<open>0..LOGN\<close> of
  \<open>k\<close> is set. Every id from \<open>- (n + 1)\<close> to \<open>n\<close> is accepted by
  \<open>get_farthest_distance\<close>, which returns a value for it.
\<close>

theorem ids_beyond_lists_rejected:
  assumes "preprocess fuel (build n0 es) = Inr t"
  shows "(v < - (n0 + 1) \<or> n0 < v \<longrightarrow>
            get_farthest_distance t v s = Inl IndexError \<and>
            is_ancestor t u v = Inl IndexError \<and> is_ancestor t v u = Inl IndexError \<and>
            ((\<exists>i \<le> LOGN t. and k (push_bit i 1) \<noteq> 0) \<longrightarrow>
               get_kth_ancestor t v k = Inl IndexError)) \<and>
         (- (n0 + 1) \<le> v \<and> v \<le> n0 \<longrightarrow> (\<exists>r. get_farthest_distance t v s = Inr r))"
proof -
  from preprocess_safe [OF assms]
  have a: "sized t" "linked t" "preprocessed t" "self_n t = n0" "1 \<le> n0" by simp_all
  have outside: "get_farthest_distance t v s = Inl IndexError \<and>
            is_ancestor t u v = Inl IndexError \<and> is_ancestor t v u = Inl IndexError \<and>
            ((\<exists>i \<le> LOGN t. and k (push_bit i 1) \<noteq> 0) \<longrightarrow>
               get_kth_ancestor t v k = Inl IndexError)"
    if "v < - (n0 + 1) \<or> n0 < v"
  proof -
    from that a(4,5) have out: "\<not> in_range (nat (self_n t + 1)) v"
      by (auto simp: in_range_def)
    with a(1) have o: "\<not> in_range (length (max_depth_in_subtree t)) v"
      "\<not> in_range (length (depth t)) v" "\<not> in_range (length (up t)) v"
      by (simp_all add: sized_def)
    have "get_farthest_distance t v s = Inl IndexError"
      by (simp add: get_farthest_distance_def a(3) py_get_error [OF o(1)])
    moreover have "is_ancestor t u v = Inl IndexError"
      by (simp add: is_ancestor_def py_get_error [OF o(2)])
    moreover have "is_ancestor t v u = Inl IndexError"
      by (cases "py_get (depth t) u")
        (auto simp: is_ancestor_def py_get_error [OF o(2)] dest: py_get_Inl)
    moreover have "get_kth_ancestor t v k = Inl IndexError"
      if bit: "\<exists>i \<le> LOGN t. and k (push_bit i 1) \<noteq> 0"
    proof -
      have "set [0..<LOGN t + 1] = {i. i \<le> LOGN t}" by auto
      then have "(\<exists>i \<in> set [0..<LOGN t + 1]. and k (push_bit i 1) \<noteq> 0) \<longleftrightarrow>
          (\<exists>i \<le> LOGN t. and k (push_bit i 1) \<noteq> 0)"
        by (simp only: Bex_def mem_Collect_eq)
      with bit show ?thesis
        by (simp only: get_kth_ancestor_def kth_loop_out_of_range [OF o(3)] if_True)
    qed
    ultimately show ?thesis by blast
  qed
  have inside: "\<exists>r. get_farthest_distance t v s = Inr r" if "- (n0 + 1) \<le> v \<and> v \<le> n0"
  proof -
    from that a(4,5) have "in_range (nat (self_n t + 1)) v" by (simp add: in_range_def)
    from get_farthest_distance_safe [OF a(1,2,3) this, of s] show ?thesis by blast
  qed
  from outside inside show ?thesis by blast
qed

theorem ids_beyond_lists_rejected_witness:
  "(case preprocess 1000 (build 4 [(1, 2), (1, 3), (1, 4)]) of
      Inl e \<Rightarrow> False
    | Inr t \<Rightarrow> get_farthest_distance t 5 0 = Inl IndexError \<and>
         is_ancestor t 1 5 = Inl IndexError \<and> is_ancestor t 5 1 = Inl IndexError \<and>
         get_kth_ancestor t 5 1 = Inl IndexError \<and>
         (\<exists>r. get_farthest_distance t (- 5) 0 = Inr r))"
proof (cases "preprocess 1000 (build 4 [(1, 2), (1, 3), (1, 4)])")
  case (Inl e)
  with star_runs show ?thesis by simp
next
  case (Inr t)
  have bit: "\<exists>i \<le> LOGN t. and (1::int) (push_bit i 1) \<noteq> 0"
    by (rule exI [of _ 0]) simp
  from ids_beyond_lists_rejected [OF Inr, of 5 0 1 1] bit
  have "get_farthest_distance t 5 0 = Inl IndexError \<and>
     is_ancestor t 1 5 = Inl IndexError \<and> is_ancestor t 5 1 = Inl IndexError \<and>
     get_kth_ancestor t 5 1 = Inl IndexError" by simp
  moreover from ids_beyond_lists_rejected [OF Inr, of "- 5" 0 1 1]
  have "\<exists>r. get_farthest_distance t (- 5) 0 = Inr r" by simp
  ultimately show ?thesis using Inr by simp
qed

text \<open>
  C8. On a valid tree that \<open>preprocess\<close> has completed, \<open>is_ancestor(1, v)\<close> and
  \<open>is_ancestor(v, v)\<close> return \<open>True\<close> for every node \<open>v\<close> in \<open>[1, n]\<close>.
\<close>

theorem root_and_self_are_ancestors:
  assumes "valid_tree n0 es" "preprocess fuel (build n0 es) = Inr t" "1 \<le> v" "v \<le> n0"
  shows "is_ancestor t 1 v = Inr True \<and> is_ancestor t v v = Inr True"
proof -
  from valid_tree_rooted [OF assms(1)] obtain P D where R: "rooted n0 es P D" by blast
  from preprocess_rooted [OF R assms(2)]
  have a: "sized t" "self_n t = n0" "LOGN t = max 1 (bit_length n0)"
    "\<forall>x \<in> {1..n0}. matches P D t x" "lifted P t (LOGN t + 1)"
    by blast+
  from R have n0: "1 \<le> n0" and d1: "D 1 = 0" by (simp_all add: rooted_def)
  from assms(3,4) have v: "v \<in> {1..n0}" by simp
  from n0 have one: "(1::int) \<in> {1..n0}" by simp
  from a(1,2) have len: "int (length (depth t)) = n0 + 1" using n0 by (simp add: sized_def)
  from a(4) v have "matches P D t v" by blast
  then have dv: "depth t ! nat v = int (D v)" by (simp add: matches_def)
  from a(4) one have "matches P D t 1" by blast
  with d1 have d1': "depth t ! nat 1 = 0" by (simp add: matches_def)
  from assms(3,4) len have gv: "py_get (depth t) v = Inr (int (D v))"
    by (simp add: py_get_nat dv)
  from n0 len d1' have g1: "py_get (depth t) 1 = Inr 0"
    using py_get_nat [of 1 "depth t"] by simp
  from n0 have "n0 < 2 ^ max 1 (bit_length n0)" by (intro bit_length_bound) simp
  with depth_bound [OF R v] have "int (D v) < 2 ^ max 1 (bit_length n0)" by (rule less_trans)
  then have "int (D v) < 2 ^ LOGN t" by (simp only: a(3))
  also have "\<dots> \<le> (2::int) ^ (LOGN t + 1)" by (rule power_increasing) simp_all
  finally have small: "int (D v) < 2 ^ (LOGN t + 1)" .
  have "get_kth_ancestor t v (int (D v)) = Inr ((up_parent P n0 ^^ nat (int (D v))) v)"
    using assms(3,4) small
    by (intro get_kth_ancestor_lifted [OF R a(1,2,5)]) simp_all
  with ancestor_root [OF R v] have k1: "get_kth_ancestor t v (int (D v)) = Inr 1" by simp
  have k0: "get_kth_ancestor t v 0 = Inr v"
    by (simp add: get_kth_ancestor_def kth_zero)
  have "is_ancestor t 1 v = Inr True"
    by (simp add: is_ancestor_def gv g1 k1)
  moreover have "is_ancestor t v v = Inr True"
    by (simp add: is_ancestor_def gv k0)
  ultimately show ?thesis by simp
qed

theorem root_and_self_are_ancestors_witness:
  "valid_tree 3 [(1, 2), (2, 3)] \<and>
   (case preprocess 1000 (build 3 [(1, 2), (2, 3)]) of
      Inl e \<Rightarrow> False
    | Inr t \<Rightarrow> is_ancestor t 1 3 = Inr True \<and> is_ancestor t 3 3 = Inr True)"
proof (cases "preprocess 1000 (build 3 [(1, 2), (2, 3)])")
  case (Inl e)
  with path_runs show ?thesis by simp
next
  case (Inr t)
  from root_and_self_are_ancestors [OF path_valid Inr, of 3] Inr path_valid show ?thesis by simp
qed

text \<open>
  C9. Each of the three queries, run as a method call, leaves behind the object it
  was called on, every field as it was, whether it returns or raises; and the same
  call issued again on the object it left behind gives the same result and object.
\<close>

theorem queries_leave_tree_unchanged:
  "snd (get_farthest_distance_call t v s) = t \<and>
   snd (get_kth_ancestor_call t u k) = t \<and>
   snd (is_ancestor_call t u w) = t \<and>
   get_farthest_distance_call (snd (get_farthest_distance_call t v s)) v s =
     get_farthest_distance_call t v s \<and>
   get_kth_ancestor_call (snd (get_kth_ancestor_call t u k)) u k = get_kth_ancestor_call t u k \<and>
   is_ancestor_call (snd (is_ancestor_call t u w)) u w = is_ancestor_call t u w"
  by (simp add: get_farthest_distance_call_eq get_kth_ancestor_call_eq is_ancestor_call_eq)

text \<open>
  C10. On every tree that \<open>preprocess\<close> has completed and for all \<open>v\<close> and
  \<open>stamina\<close>, \<open>get_farthest_distance\<close> equals the function without the first loop:
  the loop reads cells that exist and hold valid indices, so it never raises, and
  its results are not used.
\<close>

theorem first_loop_has_no_effect:
  assumes "preprocess fuel (build n0 es) = Inr t"
  shows "get_farthest_distance t v s = get_farthest_distance_simplified t v s"
proof -
  from preprocess_safe [OF assms]
  have a: "sized t" "linked t" "preprocessed t" by simp_all
  show ?thesis
  proof (cases "in_range (nat (self_n t + 1)) v")
    case True
    from get_farthest_distance_safe [OF a True, of s] show ?thesis
      by (auto simp: get_farthest_distance_simplified_def a(3))
  next
    case False
    with a(1) have "\<not> in_range (length (max_depth_in_subtree t)) v" by (simp add: sized_def)
    from py_get_error [OF this] show ?thesis
      by (simp add: get_farthest_distance_def get_farthest_distance_simplified_def)
  qed
qed

theorem first_loop_has_no_effect_witness:
  "(case preprocess 1000 (build 4 [(1, 2), (1, 3), (1, 4)]) of
      Inl e \<Rightarrow> False
    | Inr t \<Rightarrow> get_farthest_distance t 2 1 = get_farthest_distance_simplified t 2 1)"
proof (cases "preprocess 1000 (build 4 [(1, 2), (1, 3), (1, 4)])")
  case (Inl e)
  with star_runs show ?thesis by simp
next
  case (Inr t)
  from first_loop_has_no_effect [OF Inr, of 2 1] Inr show ?thesis by simp
qed

end
